theory Spec2Isabelle
  imports Main "HOL-Library.Char_ord" "HOL-Library.List_Lexorder" "HOL-Library.Sublist"
begin

section \<open>Errors\<close>

text \<open>
  Every failure that \<^verbatim>\<open>main.py\<close> raises itself is a Python \<^verbatim>\<open>ValueError\<close>; the raise
  sites are told apart by the constructor: \<open>DuplicateIdentifier\<close> is "Node ... already
  exists" (both containers), \<open>UnknownParent\<close> is "Parent ... does not exist",
  \<open>MalformedPath\<close> is "Path must start with separator" (container) and "Bad path for node"
  (reverse converter), \<open>PathIdentityMismatch\<close> is "Path mismatch". \<open>EmptySeparator\<close> is the
  \<^verbatim>\<open>ValueError\<close> that \<^verbatim>\<open>str.split\<close> raises for an empty separator, \<open>KeyError\<close> the failed
  dictionary subscript \<^verbatim>\<open>al.nodes[node_id]\<close>, and \<open>RecursionError\<close> the error of the
  interpreter when calls are nested deeper than its recursion limit.
\<close>

datatype error =
  DuplicateIdentifier | UnknownParent | MalformedPath | PathIdentityMismatch
  | EmptySeparator | KeyError | RecursionError

section \<open>Adjacency list\<close>

record ALNode =
  node_id :: string
  parent_id :: "string option"
  name :: string

text \<open>
  \<^verbatim>\<open>AdjacencyListTree\<close> has the single field \<^verbatim>\<open>nodes\<close>, a dictionary. A Python dictionary
  yields its entries in insertion order, and the converters iterate over it, so it is an
  association list in insertion order; a new key goes to the end.
\<close>

type_synonym AdjacencyListTree = "(string \<times> ALNode) list"

definition has_key :: "(string \<times> 'v) list \<Rightarrow> string \<Rightarrow> bool" where
  "has_key d k = (k \<in> set (map fst d))"

text \<open>
  A method call returns the exception it raised, if any, together with the object as the
  call leaves it.
\<close>

definition al_add_node ::
  "AdjacencyListTree \<Rightarrow> string \<Rightarrow> string option \<Rightarrow> string \<Rightarrow> error option \<times> AdjacencyListTree" where
  "al_add_node t nid pid nm =
     (if has_key t nid then (Some DuplicateIdentifier, t)
      else if pid \<noteq> None \<and> \<not> has_key t (the pid) then (Some UnknownParent, t)
      else (None, t @ [(nid, \<lparr>node_id = nid, parent_id = pid, name = nm\<rparr>)]))"

definition roots :: "AdjacencyListTree \<Rightarrow> string list" where
  "roots t = map fst (filter (\<lambda>(nid, node). parent_id node = None) t)"

definition children_of :: "AdjacencyListTree \<Rightarrow> string \<Rightarrow> string list" where
  "children_of t p = map fst (filter (\<lambda>(nid, node). parent_id node = Some p) t)"

definition al_len :: "AdjacencyListTree \<Rightarrow> nat" where
  "al_len t = length t"

text \<open>A sequence of \<^verbatim>\<open>add_node\<close> calls on one tree, stopping at the first exception.\<close>

fun add_nodes ::
  "AdjacencyListTree \<Rightarrow> (string \<times> string option \<times> string) list \<Rightarrow> error + AdjacencyListTree" where
  "add_nodes t [] = Inr t"
| "add_nodes t ((nid, pid, nm) # cs) =
     (case al_add_node t nid pid nm of
        (Some e, _) \<Rightarrow> Inl e
      | (None, t') \<Rightarrow> add_nodes t' cs)"

section \<open>Materialized path\<close>

record MPNode =
  mp_node_id :: string
  path :: string
  mp_name :: string

record MaterializedPathTree =
  sep :: string
  nodes :: "(string \<times> MPNode) list"

definition mp_init :: "string \<Rightarrow> MaterializedPathTree" where
  "mp_init sp = \<lparr>sep = sp, nodes = []\<rparr>"

definition mp_add_node ::
  "MaterializedPathTree \<Rightarrow> string \<Rightarrow> string \<Rightarrow> string \<Rightarrow> error option \<times> MaterializedPathTree" where
  "mp_add_node t nid p nm =
     (if has_key (nodes t) nid then (Some DuplicateIdentifier, t)
      else if \<not> prefix (sep t) p then (Some MalformedPath, t)
      else (None, t\<lparr>nodes := nodes t @ [(nid, \<lparr>mp_node_id = nid, path = p, mp_name = nm\<rparr>)]\<rparr>))"

definition mp_len :: "MaterializedPathTree \<Rightarrow> nat" where
  "mp_len t = length (nodes t)"

section \<open>Adjacency list to materialized path\<close>

type_synonym children_dict = "string option \<rightharpoonup> string list"

definition setdefault_append :: "children_dict \<Rightarrow> string option \<Rightarrow> string \<Rightarrow> children_dict" where
  "setdefault_append m k v = m(k \<mapsto> (case m k of None \<Rightarrow> [] | Some l \<Rightarrow> l) @ [v])"

fun group_children :: "AdjacencyListTree \<Rightarrow> children_dict \<Rightarrow> children_dict" where
  "group_children [] m = m"
| "group_children ((nid, node) # rest) m =
     group_children rest (setdefault_append m (parent_id node) nid)"

text \<open>
  The second loop sorts every value of the dictionary; \<^verbatim>\<open>list.sort\<close> on strings is the
  lexicographic order of the characters.
\<close>

definition children_map :: "AdjacencyListTree \<Rightarrow> children_dict" where
  "children_map al = (\<lambda>k. map_option sort (group_children al Map.empty k))"

definition dict_get :: "children_dict \<Rightarrow> string option \<Rightarrow> string list" where
  "dict_get m k = (case m k of None \<Rightarrow> [] | Some l \<Rightarrow> l)"

definition cur_path :: "string \<Rightarrow> string \<Rightarrow> string \<Rightarrow> string" where
  "cur_path sp parent_path nid =
     (if parent_path = sp then sp @ nid else parent_path @ sp @ nid)"

text \<open>
  \<^verbatim>\<open>dfs_build\<close> calls itself once for every level of the tree, and the interpreter raises
  \<^verbatim>\<open>RecursionError\<close> when calls are nested deeper than its recursion limit. The limit
  and the depth at which the converter is called are settings of the interpreter and of the
  caller, not of the program: the model takes \<open>frames\<close>, the number of calls that may still
  be nested at the place in question, as a parameter. A call with no frame left fails;
  within the body of a function called with \<open>Suc frames\<close> there are \<open>frames\<close> left. Only
  this recursion nests calls to a depth that grows with the input. The other functions nest
  at most three calls whatever the input (in \<^verbatim>\<open>convert_mp_to_al\<close> the sort key, \<^verbatim>\<open>depth\<close>
  and its list comprehension, or \<^verbatim>\<open>add_node\<close> and the node constructor), which is no more
  than the forward conversion of a non-empty tree needs; they are modelled without the
  limit.

  \<^verbatim>\<open>mp.add_node\<close>, called where \<open>frames\<close> calls may be nested, needs one frame for itself
  and, after its two checks, one for the constructor \<^verbatim>\<open>MPNode(...)\<close>, which comes before
  the node is stored.
\<close>

definition mp_add_node_framed ::
  "nat \<Rightarrow> MaterializedPathTree \<Rightarrow> string \<Rightarrow> string \<Rightarrow> string \<Rightarrow> error option \<times> MaterializedPathTree" where
  "mp_add_node_framed frames t nid p nm =
     (if frames = 0 then (Some RecursionError, t)
      else (case mp_add_node t nid p nm of
              (Some e, t') \<Rightarrow> (Some e, t')
            | (None, t') \<Rightarrow> if frames = 1 then (Some RecursionError, t) else (None, t')))"

function
  dfs_build ::
    "nat \<Rightarrow> AdjacencyListTree \<Rightarrow> children_dict \<Rightarrow> string \<Rightarrow> string \<Rightarrow> string \<Rightarrow>
     MaterializedPathTree \<Rightarrow> error + MaterializedPathTree"
and
  dfs_children ::
    "nat \<Rightarrow> AdjacencyListTree \<Rightarrow> children_dict \<Rightarrow> string \<Rightarrow> string list \<Rightarrow> string \<Rightarrow>
     MaterializedPathTree \<Rightarrow> error + MaterializedPathTree"
where
  "dfs_build 0 al cm sp nid parent_path mp = Inl RecursionError"
| "dfs_build (Suc frames) al cm sp nid parent_path mp =
     (case map_of al nid of
        None \<Rightarrow> Inl KeyError
      | Some node \<Rightarrow>
          (case mp_add_node_framed frames mp nid (cur_path sp parent_path nid) (name node) of
             (Some e, _) \<Rightarrow> Inl e
           | (None, mp') \<Rightarrow>
               dfs_children frames al cm sp (dict_get cm (Some nid))
                 (cur_path sp parent_path nid) mp'))"
| "dfs_children frames al cm sp [] parent_path mp = Inr mp"
| "dfs_children frames al cm sp (c # cs) parent_path mp =
     (case dfs_build frames al cm sp c parent_path mp of
        Inl e \<Rightarrow> Inl e
      | Inr mp' \<Rightarrow> dfs_children frames al cm sp cs parent_path mp')"
  by pat_completeness auto
termination
  by (relation "inv_image (measure id <*lex*> measure id)
       (\<lambda>x. case x of
           Inl (frames, al, cm, sp, nid, pp, mp) \<Rightarrow> (frames, 0)
         | Inr (frames, al, cm, sp, cs, pp, mp) \<Rightarrow> (frames, Suc (length cs)))") auto

text \<open>
  Both loops of the converter, the one over the children in \<^verbatim>\<open>dfs_build\<close> and the one
  over the roots, call \<^verbatim>\<open>dfs_build\<close> on each element of a list with one parent path, on
  the tree \<^verbatim>\<open>mp\<close> left by the call before: both are \<open>dfs_children\<close>. The converter first
  calls the constructor \<^verbatim>\<open>MaterializedPathTree(sep=sep)\<close>, which needs a frame.
\<close>

definition convert_al_to_mp ::
  "nat \<Rightarrow> AdjacencyListTree \<Rightarrow> string \<Rightarrow> error + MaterializedPathTree" where
  "convert_al_to_mp frames al sp =
     (if frames = 0 then Inl RecursionError
      else dfs_children frames al (children_map al) sp (dict_get (children_map al) None) sp
             (mp_init sp))"

section \<open>Materialized path to adjacency list\<close>

text \<open>
  \<^verbatim>\<open>str.split(sep)\<close> cuts at the occurrences of the separator found from left to right,
  without overlap, and keeps the empty pieces; \<open>acc\<close> is the piece being read.
\<close>

function split_from :: "string \<Rightarrow> string \<Rightarrow> string \<Rightarrow> string list" where
  "split_from sp acc [] = [acc]"
| "split_from sp acc (c # cs) =
     (if sp \<noteq> [] \<and> prefix sp (c # cs)
      then acc # split_from sp [] (drop (length sp) (c # cs))
      else split_from sp (acc @ [c]) cs)"
  by pat_completeness auto

termination
  by (relation "measure (\<lambda>(sp, acc, s). length s)") (auto simp: neq_Nil_conv)

definition py_split :: "string \<Rightarrow> string \<Rightarrow> error + string list" where
  "py_split s sp = (if sp = [] then Inl EmptySeparator else Inr (split_from sp [] s))"

definition path_parts :: "string \<Rightarrow> string \<Rightarrow> error + string list" where
  "path_parts sp p =
     (case py_split p sp of Inl e \<Rightarrow> Inl e | Inr segs \<Rightarrow> Inr (filter (\<lambda>s. s \<noteq> []) segs))"

definition depth :: "string \<Rightarrow> MPNode \<Rightarrow> error + nat" where
  "depth sp node = (case path_parts sp (path node) of Inl e \<Rightarrow> Inl e | Inr parts \<Rightarrow> Inr (length parts))"

text \<open>
  \<^verbatim>\<open>items.sort(key=...)\<close> computes the key of every item first, so that an exception of
  the key function leaves the sort, and then sorts stably by the keys.
\<close>

fun sort_keys :: "string \<Rightarrow> (string \<times> MPNode) list \<Rightarrow> error + (nat \<times> string \<times> MPNode) list" where
  "sort_keys sp [] = Inr []"
| "sort_keys sp (x # xs) =
     (case depth sp (snd x) of
        Inl e \<Rightarrow> Inl e
      | Inr d \<Rightarrow> (case sort_keys sp xs of Inl e \<Rightarrow> Inl e | Inr ks \<Rightarrow> Inr ((d, x) # ks)))"

definition sort_items :: "string \<Rightarrow> (string \<times> MPNode) list \<Rightarrow> error + (string \<times> MPNode) list" where
  "sort_items sp items =
     (case sort_keys sp items of Inl e \<Rightarrow> Inl e | Inr ks \<Rightarrow> Inr (map snd (sort_key fst ks)))"

fun rebuild :: "string \<Rightarrow> (string \<times> MPNode) list \<Rightarrow> AdjacencyListTree \<Rightarrow> error + AdjacencyListTree" where
  "rebuild sp [] al = Inr al"
| "rebuild sp ((nid, node) # rest) al =
     (case path_parts sp (path node) of
        Inl e \<Rightarrow> Inl e
      | Inr parts \<Rightarrow>
          if parts = [] then Inl MalformedPath
          else if last parts \<noteq> nid then Inl PathIdentityMismatch
          else
            (case al_add_node al nid
                    (if length parts = 1 then None else Some (parts ! (length parts - 2)))
                    (mp_name node) of
               (Some e, _) \<Rightarrow> Inl e
             | (None, al') \<Rightarrow> rebuild sp rest al'))"

definition convert_mp_to_al :: "MaterializedPathTree \<Rightarrow> error + AdjacencyListTree" where
  "convert_mp_to_al mp =
     (case sort_items (sep mp) (nodes mp) of
        Inl e \<Rightarrow> Inl e
      | Inr items \<Rightarrow> rebuild (sep mp) items [])"

section \<open>Notions of the statements and proofs\<close>

text \<open>
  \<open>climbs_to_root t k n\<close>: following the parent pointers from \<open>n\<close>, every identifier met
  is in the tree and a node without parent is reached after at most \<open>k\<close> steps.
\<close>

fun climbs_to_root :: "AdjacencyListTree \<Rightarrow> nat \<Rightarrow> string \<Rightarrow> bool" where
  "climbs_to_root t 0 n =
     (case map_of t n of None \<Rightarrow> False | Some node \<Rightarrow> parent_id node = None)"
| "climbs_to_root t (Suc k) n =
     (case map_of t n of
        None \<Rightarrow> False
      | Some node \<Rightarrow> (case parent_id node of None \<Rightarrow> True | Some p \<Rightarrow> climbs_to_root t k p))"

definition forest :: "AdjacencyListTree \<Rightarrow> bool" where
  "forest t = list_all (climbs_to_root t (length t)) (map fst t)"

definition parent_rel :: "AdjacencyListTree \<Rightarrow> (string \<times> string) set" where
  "parent_rel t = {(n, p). \<exists>node. map_of t n = Some node \<and> parent_id node = Some p}"

text \<open>The identifiers stored under the parent \<open>k\<close>, in the order of the tree.\<close>

definition child_ids :: "AdjacencyListTree \<Rightarrow> string option \<Rightarrow> string list" where
  "child_ids al k = map fst (filter (\<lambda>(nid, node). parent_id node = k) al)"

text \<open>The non-empty pieces of a path, for a non-empty delimiter.\<close>

definition segments :: "string \<Rightarrow> string \<Rightarrow> string list" where
  "segments sp p = filter (\<lambda>s. s \<noteq> []) (split_from sp [] p)"

definition node_depth :: "string \<Rightarrow> string \<times> MPNode \<Rightarrow> nat" where
  "node_depth sp x = length (segments sp (path (snd x)))"

text \<open>The node that the reverse converter inserts for an entry of the path tree.\<close>

definition al_node_of :: "string \<Rightarrow> string \<times> MPNode \<Rightarrow> string \<times> ALNode" where
  "al_node_of sp x =
     (fst x,
      \<lparr>node_id = fst x,
       parent_id =
         (if length (segments sp (path (snd x))) = 1 then None
          else Some (segments sp (path (snd x)) ! (length (segments sp (path (snd x))) - 2))),
       name = mp_name (snd x)\<rparr>)"

text \<open>
  An entry names itself when its path has a segment and the last one is its identifier.
  Its parent is known among \<open>items\<close> when its path has one segment, or the segment before
  the last is the identifier of an entry with fewer segments. A path tree is well formed
  when its delimiter is not empty, its keys are those of a dictionary and every entry names
  itself and has a known parent; that holds when every path lists the ancestors of its
  node, from a root down.
\<close>

definition names_itself :: "string \<Rightarrow> string \<times> MPNode \<Rightarrow> bool" where
  "names_itself sp x =
     (segments sp (path (snd x)) \<noteq> [] \<and> last (segments sp (path (snd x))) = fst x)"

definition parent_known :: "string \<Rightarrow> (string \<times> MPNode) list \<Rightarrow> string \<times> MPNode \<Rightarrow> bool" where
  "parent_known sp items x =
     (node_depth sp x = 1 \<or>
      list_ex (\<lambda>y. fst y = segments sp (path (snd x)) ! (node_depth sp x - 2)
                   \<and> node_depth sp y < node_depth sp x) items)"

definition well_formed :: "MaterializedPathTree \<Rightarrow> bool" where
  "well_formed mp =
     (sep mp \<noteq> [] \<and> distinct (map fst (nodes mp)) \<and>
      list_all (\<lambda>x. names_itself (sep mp) x \<and> parent_known (sep mp) (nodes mp) x) (nodes mp))"

text \<open>
  \<open>insertable sp ks items\<close>: the entries of \<open>items\<close>, inserted in this order into a tree
  that holds the identifiers \<open>ks\<close>, pass every check of the reverse converter.
\<close>

fun insertable :: "string \<Rightarrow> string list \<Rightarrow> (string \<times> MPNode) list \<Rightarrow> bool" where
  "insertable sp ks [] = True"
| "insertable sp ks (x # rest) =
     (names_itself sp x \<and> fst x \<notin> set ks \<and>
      (node_depth sp x = 1 \<or> segments sp (path (snd x)) ! (node_depth sp x - 2) \<in> set ks) \<and>
      insertable sp (ks @ [fst x]) rest)"

text \<open>
  \<open>chain t n\<close> lists the identifiers met from a root down to \<open>n\<close>; in a forest the parent
  pointers are followed to the root within as many steps as the tree has nodes.
  \<open>join_path sp ids\<close> is the path of a chain: every identifier with the delimiter before it.
  \<open>written_path sp ids\<close> is the path that \<^verbatim>\<open>dfs_build\<close> computes along a chain: it starts
  from the delimiter, which the roots get as parent path, and applies the rule of
  \<^verbatim>\<open>dfs_build\<close> at every identifier.
\<close>

definition parent_of :: "AdjacencyListTree \<Rightarrow> string \<Rightarrow> string option" where
  "parent_of t n = (case map_of t n of None \<Rightarrow> None | Some node \<Rightarrow> parent_id node)"

fun chain_of :: "AdjacencyListTree \<Rightarrow> nat \<Rightarrow> string \<Rightarrow> string list" where
  "chain_of t 0 n = [n]"
| "chain_of t (Suc k) n =
     (case parent_of t n of None \<Rightarrow> [n] | Some p \<Rightarrow> chain_of t k p @ [n])"

definition chain :: "AdjacencyListTree \<Rightarrow> string \<Rightarrow> string list" where
  "chain t n = chain_of t (length t) n"

definition join_path :: "string \<Rightarrow> string list \<Rightarrow> string" where
  "join_path sp ids = concat (map (\<lambda>s. sp @ s) ids)"

definition written_path :: "string \<Rightarrow> string list \<Rightarrow> string" where
  "written_path sp ids = foldl (cur_path sp) sp ids"

definition name_of :: "AdjacencyListTree \<Rightarrow> string \<Rightarrow> string" where
  "name_of t n = (case map_of t n of None \<Rightarrow> [] | Some node \<Rightarrow> name node)"

text \<open>
  The depth of a tree is the length of its longest chain. A tree of depth \<open>d\<close> needs
  \<open>d + 2\<close> frames in \<^verbatim>\<open>convert_al_to_mp\<close>: one for every level of \<^verbatim>\<open>dfs_build\<close> and two
  for \<^verbatim>\<open>add_node\<close> and the node constructor at the deepest level; the empty tree needs
  the one of the tree constructor.
\<close>

definition al_depth :: "AdjacencyListTree \<Rightarrow> nat" where
  "al_depth t = foldr (\<lambda>n d. max (length (chain t n)) d) (map fst t) 0"

definition frames_needed :: "AdjacencyListTree \<Rightarrow> nat" where
  "frames_needed t = (if t = [] then 1 else al_depth t + 2)"

text \<open>The entry that the forward converter writes for the identifier \<open>n\<close>.\<close>

definition mp_entry :: "AdjacencyListTree \<Rightarrow> string \<Rightarrow> string \<Rightarrow> string \<times> MPNode" where
  "mp_entry t sp n =
     (n, \<lparr>mp_node_id = n, path = written_path sp (chain t n), mp_name = name_of t n\<rparr>)"

text \<open>The nodes below \<open>n\<close>, \<open>n\<close> included: those whose chain starts with the chain of \<open>n\<close>.\<close>

definition subtree :: "AdjacencyListTree \<Rightarrow> string \<Rightarrow> string set" where
  "subtree t n = {m \<in> set (map fst t). prefix (chain t n) (chain t m)}"

text \<open>
  \<open>parent_path_ok t sp q pp\<close>: \<open>pp\<close> is what \<^verbatim>\<open>dfs_build\<close> receives as parent path for a
  node whose parent is \<open>q\<close>, the delimiter for a root and the path written for the parent
  otherwise.
\<close>

definition parent_path_ok :: "AdjacencyListTree \<Rightarrow> string \<Rightarrow> string option \<Rightarrow> string \<Rightarrow> bool" where
  "parent_path_ok t sp q pp =
     (pp = written_path sp (case q of None \<Rightarrow> [] | Some p \<Rightarrow> chain t p))"

text \<open>
  \<open>al_entry t n\<close> is the entry of \<open>n\<close> in a tree whose nodes carry their own key, as the
  nodes written by \<^verbatim>\<open>add_node\<close> do (\<open>keyed\<close>).
\<close>

definition al_entry :: "AdjacencyListTree \<Rightarrow> string \<Rightarrow> string \<times> ALNode" where
  "al_entry t n = (n, \<lparr>node_id = n, parent_id = parent_of t n, name = name_of t n\<rparr>)"

definition keyed :: "AdjacencyListTree \<Rightarrow> bool" where
  "keyed t = (distinct (map fst t) \<and> list_all (\<lambda>(n, node). node_id node = n) t)"

text \<open>The path stored for an identifier.\<close>

definition mp_path :: "MaterializedPathTree \<Rightarrow> string \<Rightarrow> string option" where
  "mp_path mp n = map_option path (map_of (nodes mp) n)"

text \<open>
  \<open>room t frames n\<close>: a call of \<^verbatim>\<open>dfs_build\<close> for \<open>n\<close> with \<open>frames\<close> frames has a frame
  for every level below \<open>n\<close> and two more at the deepest.
\<close>

definition room :: "AdjacencyListTree \<Rightarrow> nat \<Rightarrow> string \<Rightarrow> bool" where
  "room t frames n =
     (\<forall>m \<in> subtree t n. length (chain t m) + 3 \<le> frames + length (chain t n))"

section \<open>The containers reject before they change\<close>

text \<open>
  C7, as the code has it. \<^verbatim>\<open>AdjacencyListTree.add_node\<close> fails with DuplicateIdentifier
  whenever the identifier is already present. It fails with UnknownParent whenever a parent
  identifier is given that is not in the container and the identifier itself is not already
  present: the duplicate check comes first. Whenever it fails, the container is the one it
  was before the call, with the same size.
\<close>

theorem al_add_node_rejects:
  "(has_key t nid \<longrightarrow> al_add_node t nid pid nm = (Some DuplicateIdentifier, t)) \<and>
   (\<not> has_key t nid \<and> pid = Some p \<and> \<not> has_key t p \<longrightarrow>
      al_add_node t nid pid nm = (Some UnknownParent, t)) \<and>
   (fst (al_add_node t nid pid nm) \<noteq> None \<longrightarrow>
      snd (al_add_node t nid pid nm) = t \<and> al_len (snd (al_add_node t nid pid nm)) = al_len t)"
  by (simp add: al_add_node_def)

theorem al_add_node_rejects_witness:
  "has_key [(''A'', \<lparr>node_id = ''A'', parent_id = None, name = ''a''\<rparr>)] ''A'' \<and>
   al_add_node [(''A'', \<lparr>node_id = ''A'', parent_id = None, name = ''a''\<rparr>)] ''A'' None ''x'' =
     (Some DuplicateIdentifier, [(''A'', \<lparr>node_id = ''A'', parent_id = None, name = ''a''\<rparr>)]) \<and>
   \<not> has_key [(''A'', \<lparr>node_id = ''A'', parent_id = None, name = ''a''\<rparr>)] ''B'' \<and>
   \<not> has_key [(''A'', \<lparr>node_id = ''A'', parent_id = None, name = ''a''\<rparr>)] ''Z'' \<and>
   al_add_node [(''A'', \<lparr>node_id = ''A'', parent_id = None, name = ''a''\<rparr>)] ''B'' (Some ''Z'') ''x'' =
     (Some UnknownParent, [(''A'', \<lparr>node_id = ''A'', parent_id = None, name = ''a''\<rparr>)])"
  using al_add_node_rejects [of "[(''A'', \<lparr>node_id = ''A'', parent_id = None, name = ''a''\<rparr>)]" "''A''" None "''x''"]
    al_add_node_rejects [where t = "[(''A'', \<lparr>node_id = ''A'', parent_id = None, name = ''a''\<rparr>)]"
      and nid = "''B''" and pid = "Some ''Z''" and p = "''Z''" and nm = "''x''"]
  by (simp add: has_key_def)

text \<open>
  C7 as it is stated does not hold: on the tree that holds \<open>A\<close>, adding \<open>A\<close> again with the
  parent \<open>Z\<close>, which is not in the tree, fails with DuplicateIdentifier and not with
  UnknownParent.
\<close>

theorem al_add_node_unknown_parent_counterexample:
  "\<not> has_key [(''A'', \<lparr>node_id = ''A'', parent_id = None, name = ''a''\<rparr>)] ''Z'' \<and>
   fst (al_add_node [(''A'', \<lparr>node_id = ''A'', parent_id = None, name = ''a''\<rparr>)] ''A'' (Some ''Z'') ''x'')
     = Some DuplicateIdentifier \<and>
   fst (al_add_node [(''A'', \<lparr>node_id = ''A'', parent_id = None, name = ''a''\<rparr>)] ''A'' (Some ''Z'') ''x'')
     \<noteq> Some UnknownParent"
  by (simp add: al_add_node_def has_key_def)

text \<open>
  C8, as the code has it. \<^verbatim>\<open>MaterializedPathTree.add_node\<close> fails with
  DuplicateIdentifier when the identifier is already present. It fails with MalformedPath
  when the path does not start with the delimiter of the tree and the identifier is not
  already present, as for the path \<open>X/Y\<close> with the delimiter \<open>/\<close>: the duplicate check comes
  first. Otherwise it appends the node, whatever the rest of the path is. Whenever it fails
  the tree is the one it was.
\<close>

theorem mp_add_node_cases:
  "(has_key (nodes t) nid \<longrightarrow> mp_add_node t nid p nm = (Some DuplicateIdentifier, t)) \<and>
   (\<not> has_key (nodes t) nid \<and> \<not> prefix (sep t) p \<longrightarrow>
      mp_add_node t nid p nm = (Some MalformedPath, t)) \<and>
   (\<not> has_key (nodes t) nid \<and> sep t = ''/'' \<longrightarrow>
      mp_add_node t nid ''X/Y'' nm = (Some MalformedPath, t)) \<and>
   (\<not> has_key (nodes t) nid \<and> prefix (sep t) p \<longrightarrow>
      mp_add_node t nid p nm =
        (None, t\<lparr>nodes := nodes t @ [(nid, \<lparr>mp_node_id = nid, path = p, mp_name = nm\<rparr>)]\<rparr>))"
  by (simp add: mp_add_node_def has_key_def)

theorem mp_add_node_cases_witness:
  "has_key (nodes \<lparr>sep = ''/'', nodes = [(''A'', \<lparr>mp_node_id = ''A'', path = ''/A'', mp_name = ''a''\<rparr>)]\<rparr>) ''A'' \<and>
   mp_add_node \<lparr>sep = ''/'', nodes = [(''A'', \<lparr>mp_node_id = ''A'', path = ''/A'', mp_name = ''a''\<rparr>)]\<rparr>
       ''A'' ''/A'' ''x'' =
     (Some DuplicateIdentifier,
      \<lparr>sep = ''/'', nodes = [(''A'', \<lparr>mp_node_id = ''A'', path = ''/A'', mp_name = ''a''\<rparr>)]\<rparr>) \<and>
   \<not> has_key (nodes \<lparr>sep = ''/'', nodes = [(''A'', \<lparr>mp_node_id = ''A'', path = ''/A'', mp_name = ''a''\<rparr>)]\<rparr>) ''Y'' \<and>
   \<not> prefix (sep \<lparr>sep = ''/'', nodes = [(''A'', \<lparr>mp_node_id = ''A'', path = ''/A'', mp_name = ''a''\<rparr>)]\<rparr>) ''X/Y'' \<and>
   mp_add_node \<lparr>sep = ''/'', nodes = [(''A'', \<lparr>mp_node_id = ''A'', path = ''/A'', mp_name = ''a''\<rparr>)]\<rparr>
       ''Y'' ''X/Y'' ''x'' =
     (Some MalformedPath,
      \<lparr>sep = ''/'', nodes = [(''A'', \<lparr>mp_node_id = ''A'', path = ''/A'', mp_name = ''a''\<rparr>)]\<rparr>) \<and>
   prefix (sep (mp_init ''/'')) ''/Q/Y'' \<and>
   mp_add_node (mp_init ''/'') ''Y'' ''/Q/Y'' ''x'' =
     (None, \<lparr>sep = ''/'', nodes = [(''Y'', \<lparr>mp_node_id = ''Y'', path = ''/Q/Y'', mp_name = ''x''\<rparr>)]\<rparr>)"
  using mp_add_node_cases [of "\<lparr>sep = ''/'', nodes = [(''A'', \<lparr>mp_node_id = ''A'', path = ''/A'', mp_name = ''a''\<rparr>)]\<rparr>" "''A''" "''/A''" "''x''"]
    mp_add_node_cases [of "\<lparr>sep = ''/'', nodes = [(''A'', \<lparr>mp_node_id = ''A'', path = ''/A'', mp_name = ''a''\<rparr>)]\<rparr>" "''Y''" "''X/Y''" "''x''"]
    mp_add_node_cases [of "mp_init ''/''" "''Y''" "''/Q/Y''" "''x''"]
  by (simp add: has_key_def mp_init_def)

text \<open>
  C8 as it is stated does not hold: on the tree that holds \<open>A\<close>, built by \<^verbatim>\<open>add_node\<close>,
  adding \<open>A\<close> again with the path \<open>X/Y\<close>, which does not start with the delimiter, fails
  with DuplicateIdentifier and not with MalformedPath.
\<close>

theorem mp_add_node_malformed_counterexample:
  "mp_add_node (mp_init ''/'') ''A'' ''/A'' ''a'' =
     (None, \<lparr>sep = ''/'', nodes = [(''A'', \<lparr>mp_node_id = ''A'', path = ''/A'', mp_name = ''a''\<rparr>)]\<rparr>) \<and>
   \<not> prefix (sep \<lparr>sep = ''/'', nodes = [(''A'', \<lparr>mp_node_id = ''A'', path = ''/A'', mp_name = ''a''\<rparr>)]\<rparr>)
       ''X/Y'' \<and>
   fst (mp_add_node \<lparr>sep = ''/'', nodes = [(''A'', \<lparr>mp_node_id = ''A'', path = ''/A'', mp_name = ''a''\<rparr>)]\<rparr>
       ''A'' ''X/Y'' ''x'') = Some DuplicateIdentifier \<and>
   fst (mp_add_node \<lparr>sep = ''/'', nodes = [(''A'', \<lparr>mp_node_id = ''A'', path = ''/A'', mp_name = ''a''\<rparr>)]\<rparr>
       ''A'' ''X/Y'' ''x'') \<noteq> Some MalformedPath"
  by (simp add: mp_add_node_def mp_init_def has_key_def)

section \<open>More frames change no result\<close>

text \<open>
  A conversion that succeeds with some number of frames gives the same result with any
  greater number: the frames only decide whether \<^verbatim>\<open>RecursionError\<close> is raised.
\<close>

lemma mp_add_node_framed_more:
  "mp_add_node_framed f t nid p nm = (None, t') \<Longrightarrow>
     mp_add_node_framed (f + k) t nid p nm = (None, t')"
  by (auto simp: mp_add_node_framed_def split: if_splits prod.splits option.splits)

lemma dfs_more_frames:
  "dfs_build f al cm sp n pp mp = Inr r \<Longrightarrow> dfs_build (f + k) al cm sp n pp mp = Inr r"
  "dfs_children f al cm sp cs pp mp = Inr r \<Longrightarrow> dfs_children (f + k) al cm sp cs pp mp = Inr r"
proof (induction f al cm sp n pp mp and f al cm sp cs pp mp arbitrary: r and r
       rule: dfs_build_dfs_children.induct)
  case (1 al cm sp nid parent_path mp)
  then show ?case by simp
next
  case (2 frames al cm sp nid parent_path mp)
  from "2.prems" obtain node mp' where
    n: "map_of al nid = Some node" and
    a: "mp_add_node_framed frames mp nid (cur_path sp parent_path nid) (name node) = (None, mp')" and
    c: "dfs_children frames al cm sp (dict_get cm (Some nid)) (cur_path sp parent_path nid) mp' = Inr r"
    by (auto split: option.splits prod.splits)
  from "2.IH"[OF n a[symmetric] refl c]
  have "dfs_children (frames + k) al cm sp (dict_get cm (Some nid))
          (cur_path sp parent_path nid) mp' = Inr r" .
  with n mp_add_node_framed_more[OF a, of k] show ?case by simp
next
  case (3 frames al cm sp parent_path mp)
  then show ?case by simp
next
  case (4 frames al cm sp c cs parent_path mp)
  from "4.prems" obtain mp' where
    b: "dfs_build frames al cm sp c parent_path mp = Inr mp'" and
    r: "dfs_children frames al cm sp cs parent_path mp' = Inr r"
    by (auto split: sum.splits)
  from "4.IH"(1)[OF b] "4.IH"(2)[OF b r] show ?case by simp
qed

lemma convert_more_frames:
  "convert_al_to_mp f al sp = Inr r \<Longrightarrow> convert_al_to_mp (f + k) al sp = Inr r"
  by (auto simp: convert_al_to_mp_def split: if_splits intro: dfs_more_frames(2))

section \<open>The delimiter inside an identifier\<close>

text \<open>
  C10. \<^verbatim>\<open>AdjacencyListTree.add_node\<close> refuses a root identifier that contains the
  delimiter only when it is a duplicate. The tree of the single root \<open>A/B\<close> converts, with
  three frames or more, to the path \<open>/A/B\<close>, and converting that back fails with
  PathIdentityMismatch.
\<close>

theorem delimiter_in_identifier:
  "fst (al_add_node t (a @ sp @ b) None nm) =
     (if has_key t (a @ sp @ b) then Some DuplicateIdentifier else None) \<and>
   add_nodes [] [(''A/B'', None, ''x'')] =
     Inr [(''A/B'', \<lparr>node_id = ''A/B'', parent_id = None, name = ''x''\<rparr>)] \<and>
   convert_al_to_mp (3 + k) [(''A/B'', \<lparr>node_id = ''A/B'', parent_id = None, name = ''x''\<rparr>)] ''/'' =
     Inr \<lparr>sep = ''/'', nodes = [(''A/B'', \<lparr>mp_node_id = ''A/B'', path = ''/A/B'', mp_name = ''x''\<rparr>)]\<rparr> \<and>
   convert_mp_to_al
       \<lparr>sep = ''/'', nodes = [(''A/B'', \<lparr>mp_node_id = ''A/B'', path = ''/A/B'', mp_name = ''x''\<rparr>)]\<rparr> =
     Inl PathIdentityMismatch"
proof -
  have 1: "fst (al_add_node t (a @ sp @ b) None nm) =
     (if has_key t (a @ sp @ b) then Some DuplicateIdentifier else None)"
    by (simp add: al_add_node_def)
  have 2: "add_nodes [] [(''A/B'', None, ''x'')] =
     Inr [(''A/B'', \<lparr>node_id = ''A/B'', parent_id = None, name = ''x''\<rparr>)]"
    by code_simp
  have "convert_al_to_mp 3 [(''A/B'', \<lparr>node_id = ''A/B'', parent_id = None, name = ''x''\<rparr>)] ''/'' =
     Inr \<lparr>sep = ''/'', nodes = [(''A/B'', \<lparr>mp_node_id = ''A/B'', path = ''/A/B'', mp_name = ''x''\<rparr>)]\<rparr>"
    by code_simp
  then have 3: "convert_al_to_mp (3 + k) [(''A/B'', \<lparr>node_id = ''A/B'', parent_id = None, name = ''x''\<rparr>)] ''/'' =
     Inr \<lparr>sep = ''/'', nodes = [(''A/B'', \<lparr>mp_node_id = ''A/B'', path = ''/A/B'', mp_name = ''x''\<rparr>)]\<rparr>"
    by (rule convert_more_frames)
  have 4: "convert_mp_to_al
       \<lparr>sep = ''/'', nodes = [(''A/B'', \<lparr>mp_node_id = ''A/B'', path = ''/A/B'', mp_name = ''x''\<rparr>)]\<rparr> =
     Inl PathIdentityMismatch"
    by code_simp
  from 1 2 3 4 show ?thesis by blast
qed

section \<open>The parent pointers\<close>

lemma add_nodes_invariant:
  assumes "add_nodes t cs = Inr t'" and "P t"
    and "\<And>s nid pid nm s'. P s \<Longrightarrow> al_add_node s nid pid nm = (None, s') \<Longrightarrow> P s'"
  shows "P t'"
  using assms(1,2)
proof (induction cs arbitrary: t)
  case Nil
  then show ?case by simp
next
  case (Cons c cs)
  obtain nid pid nm where c: "c = (nid, pid, nm)" by (cases c)
  from Cons.prems(1) c obtain s where
    s: "al_add_node t nid pid nm = (None, s)" and r: "add_nodes s cs = Inr t'"
    by (auto split: prod.splits option.splits)
  from assms(3)[OF Cons.prems(2) s] have "P s" .
  from Cons.IH[OF r this] show ?case .
qed

lemma al_add_node_None:
  "al_add_node t nid pid nm = (None, t') \<Longrightarrow>
     \<not> has_key t nid \<and> (pid = None \<or> has_key t (the pid)) \<and>
     t' = t @ [(nid, \<lparr>node_id = nid, parent_id = pid, name = nm\<rparr>)]"
  by (auto simp: al_add_node_def split: if_splits)

lemma map_of_append_Some: "map_of t n = Some v \<Longrightarrow> map_of (t @ e) n = Some v"
  by (simp add: map_add_Some_iff)

lemma climbs_0_iff:
  "climbs_to_root t 0 n \<longleftrightarrow> (\<exists>node. map_of t n = Some node \<and> parent_id node = None)"
  by (auto split: option.splits)

lemma climbs_Suc_iff:
  "climbs_to_root t (Suc k) n \<longleftrightarrow>
     (\<exists>node. map_of t n = Some node \<and>
        (parent_id node = None \<or> (\<exists>p. parent_id node = Some p \<and> climbs_to_root t k p)))"
  by (auto split: option.splits)

declare climbs_to_root.simps [simp del]

lemma climbs_append: "climbs_to_root t k n \<Longrightarrow> climbs_to_root (t @ e) k n"
proof (induction k arbitrary: n)
  case 0
  then show ?case unfolding climbs_0_iff by (blast intro: map_of_append_Some)
next
  case (Suc k)
  from Suc.prems Suc.IH climbs_Suc_iff[of t k n] climbs_Suc_iff[of "t @ e" k n]
  show ?case by (blast intro: map_of_append_Some)
qed

lemma climbs_mono: "climbs_to_root t k n \<Longrightarrow> climbs_to_root t (Suc k) n"
proof (induction k arbitrary: n)
  case 0
  then show ?case using climbs_0_iff[of t n] climbs_Suc_iff[of t 0 n] by blast
next
  case (Suc k)
  from Suc.prems Suc.IH climbs_Suc_iff[of t k n] climbs_Suc_iff[of t "Suc k" n]
  show ?case by blast
qed

lemma forestD: "forest t \<Longrightarrow> n \<in> set (map fst t) \<Longrightarrow> climbs_to_root t (length t) n"
  by (auto simp: forest_def list_all_iff)

lemma map_of_fresh_append:
  "\<not> has_key t nid \<Longrightarrow> map_of (t @ [(nid, v)]) nid = Some v"
  by (auto simp: has_key_def map_add_Some_iff map_of_eq_None_iff image_iff)

lemma al_add_node_forest:
  assumes "forest t" and "al_add_node t nid pid nm = (None, t')"
  shows "forest t'"
proof -
  let ?v = "\<lparr>node_id = nid, parent_id = pid, name = nm\<rparr>"
  from al_add_node_None[OF assms(2)] have
    fresh: "\<not> has_key t nid" and par: "pid = None \<or> has_key t (the pid)" and
    t': "t' = t @ [(nid, ?v)]" by auto
  have len: "length t' = Suc (length t)" by (simp add: t')
  have m: "map_of t' nid = Some ?v"
    unfolding t' using fresh by (rule map_of_fresh_append)
  have old: "climbs_to_root t' (length t') n" if "n \<in> set (map fst t)" for n
  proof -
    from assms(1) that have "climbs_to_root t (length t) n"
      by (rule forestD)
    then have "climbs_to_root t' (length t) n" unfolding t' by (rule climbs_append)
    then show ?thesis unfolding len by (rule climbs_mono)
  qed
  have new: "climbs_to_root t' (length t') nid"
  proof (cases pid)
    case None
    with m show ?thesis unfolding len climbs_Suc_iff by simp
  next
    case (Some p)
    with par have "p \<in> set (map fst t)" by (simp add: has_key_def)
    with assms(1) have "climbs_to_root t (length t) p"
      by (rule forestD)
    then have "climbs_to_root t' (length t) p" unfolding t' by (rule climbs_append)
    with m Some show ?thesis unfolding len climbs_Suc_iff[of t' "length t" nid] by simp
  qed
  show ?thesis
    unfolding forest_def list_all_iff
  proof
    fix n assume "n \<in> set (map fst t')"
    then have "n = nid \<or> n \<in> set (map fst t)" by (auto simp: t')
    with old new show "climbs_to_root t' (length t') n" by blast
  qed
qed

lemma climbs_parent_closer:
  assumes "(n, m) \<in> (parent_rel t)\<^sup>+" and "climbs_to_root t k n"
  shows "\<exists>j<k. climbs_to_root t j m"
  using assms
proof (induction arbitrary: k rule: trancl_induct)
  case (base m)
  then show ?case
    by (cases k) (auto simp: parent_rel_def climbs_0_iff climbs_Suc_iff)
next
  case (step m m')
  from step.IH[OF step.prems] obtain j where j: "j < k" "climbs_to_root t j m" by blast
  with step.hyps(2) show ?case
    by (cases j) (auto simp: parent_rel_def climbs_0_iff climbs_Suc_iff intro: Suc_lessD)
qed

lemma climbs_no_cycle: "climbs_to_root t k n \<Longrightarrow> (n, n) \<notin> (parent_rel t)\<^sup>+"
proof (induction k arbitrary: n rule: less_induct)
  case (less k)
  show ?case
  proof
    assume c: "(n, n) \<in> (parent_rel t)\<^sup>+"
    from climbs_parent_closer[OF c less.prems] obtain j where "j < k" "climbs_to_root t j n"
      by blast
    from less.IH[OF this] c show False by blast
  qed
qed

lemma forest_acyclic:
  assumes "forest t"
  shows "acyclic (parent_rel t)"
  unfolding acyclic_def
proof (intro allI notI)
  fix n assume c: "(n, n) \<in> (parent_rel t)\<^sup>+"
  then obtain m where "(n, m) \<in> parent_rel t" by (meson tranclD)
  then have "n \<in> set (map fst t)"
    by (auto simp: parent_rel_def dest: map_of_SomeD intro: rev_image_eqI)
  with assms have "climbs_to_root t (length t) n"
    by (rule forestD)
  from climbs_no_cycle[OF this] c show False by blast
qed

lemma forest_Nil: "forest []"
  by (simp add: forest_def)

lemma built_forest: "add_nodes [] calls = Inr t \<Longrightarrow> forest t"
  by (rule add_nodes_invariant[where P = forest]) (auto simp: forest_Nil intro: al_add_node_forest)

text \<open>
  C9. A tree built from the empty tree by successful \<^verbatim>\<open>add_node\<close> calls is a forest: from
  every node the parent pointers lead, through nodes of the tree, to a node without parent,
  and the parent relation has no cycle. \<^verbatim>\<open>add_node\<close> keeps a forest a forest with its
  two membership tests alone.
\<close>

theorem forest_invariant:
  "(add_nodes [] calls = Inr t \<longrightarrow> forest t \<and> acyclic (parent_rel t)) \<and>
   (forest t \<and> al_add_node t nid pid nm = (None, t') \<longrightarrow> forest t' \<and> acyclic (parent_rel t'))"
  using built_forest forest_acyclic al_add_node_forest by blast

theorem forest_invariant_witness:
  "add_nodes [] [(''A'', None, ''a''), (''B'', Some ''A'', ''b'')] =
     Inr [(''A'', \<lparr>node_id = ''A'', parent_id = None, name = ''a''\<rparr>),
          (''B'', \<lparr>node_id = ''B'', parent_id = Some ''A'', name = ''b''\<rparr>)] \<and>
   forest [(''A'', \<lparr>node_id = ''A'', parent_id = None, name = ''a''\<rparr>),
           (''B'', \<lparr>node_id = ''B'', parent_id = Some ''A'', name = ''b''\<rparr>)] \<and>
   acyclic (parent_rel [(''A'', \<lparr>node_id = ''A'', parent_id = None, name = ''a''\<rparr>),
           (''B'', \<lparr>node_id = ''B'', parent_id = Some ''A'', name = ''b''\<rparr>)]) \<and>
   al_add_node [(''A'', \<lparr>node_id = ''A'', parent_id = None, name = ''a''\<rparr>),
           (''B'', \<lparr>node_id = ''B'', parent_id = Some ''A'', name = ''b''\<rparr>)] ''C'' (Some ''B'') ''c'' =
     (None, [(''A'', \<lparr>node_id = ''A'', parent_id = None, name = ''a''\<rparr>),
           (''B'', \<lparr>node_id = ''B'', parent_id = Some ''A'', name = ''b''\<rparr>),
           (''C'', \<lparr>node_id = ''C'', parent_id = Some ''B'', name = ''c''\<rparr>)]) \<and>
   forest [(''A'', \<lparr>node_id = ''A'', parent_id = None, name = ''a''\<rparr>),
           (''B'', \<lparr>node_id = ''B'', parent_id = Some ''A'', name = ''b''\<rparr>),
           (''C'', \<lparr>node_id = ''C'', parent_id = Some ''B'', name = ''c''\<rparr>)] \<and>
   acyclic (parent_rel [(''A'', \<lparr>node_id = ''A'', parent_id = None, name = ''a''\<rparr>),
           (''B'', \<lparr>node_id = ''B'', parent_id = Some ''A'', name = ''b''\<rparr>),
           (''C'', \<lparr>node_id = ''C'', parent_id = Some ''B'', name = ''c''\<rparr>)])"
proof -
  have h1: "add_nodes [] [(''A'', None, ''a''), (''B'', Some ''A'', ''b'')] =
     Inr [(''A'', \<lparr>node_id = ''A'', parent_id = None, name = ''a''\<rparr>),
          (''B'', \<lparr>node_id = ''B'', parent_id = Some ''A'', name = ''b''\<rparr>)]"
    by code_simp
  have h2: "al_add_node [(''A'', \<lparr>node_id = ''A'', parent_id = None, name = ''a''\<rparr>),
           (''B'', \<lparr>node_id = ''B'', parent_id = Some ''A'', name = ''b''\<rparr>)] ''C'' (Some ''B'') ''c'' =
     (None, [(''A'', \<lparr>node_id = ''A'', parent_id = None, name = ''a''\<rparr>),
           (''B'', \<lparr>node_id = ''B'', parent_id = Some ''A'', name = ''b''\<rparr>),
           (''C'', \<lparr>node_id = ''C'', parent_id = Some ''B'', name = ''c''\<rparr>)])"
    by code_simp
  from h1 h2 forest_invariant [of "[(''A'', None, ''a''), (''B'', Some ''A'', ''b'')]"
      "[(''A'', \<lparr>node_id = ''A'', parent_id = None, name = ''a''\<rparr>),
        (''B'', \<lparr>node_id = ''B'', parent_id = Some ''A'', name = ''b''\<rparr>)]"
      "''C''" "Some ''B''" "''c''"
      "[(''A'', \<lparr>node_id = ''A'', parent_id = None, name = ''a''\<rparr>),
           (''B'', \<lparr>node_id = ''B'', parent_id = Some ''A'', name = ''b''\<rparr>),
           (''C'', \<lparr>node_id = ''C'', parent_id = Some ''B'', name = ''c''\<rparr>)]"]
  show ?thesis by blast
qed

section \<open>The children dictionary\<close>

lemma roots_child_ids: "roots t = child_ids t None"
  by (simp add: roots_def child_ids_def)

lemma children_of_child_ids: "children_of t p = child_ids t (Some p)"
  by (simp add: children_of_def child_ids_def)

lemma child_ids_Cons:
  "child_ids ((nid, node) # rest) k =
     (if parent_id node = k then nid # child_ids rest k else child_ids rest k)"
  by (simp add: child_ids_def)

lemma group_children_get:
  "group_children al m k =
     (if child_ids al k = [] then m k
      else Some ((case m k of None \<Rightarrow> [] | Some l \<Rightarrow> l) @ child_ids al k))"
proof (induction al arbitrary: m)
  case Nil
  then show ?case by (simp add: child_ids_def)
next
  case (Cons x al)
  obtain nid node where x: "x = (nid, node)" by (cases x)
  show ?case
    unfolding x group_children.simps Cons.IH child_ids_Cons
    by (simp add: setdefault_append_def)
qed

lemma dict_get_children_map:
  "dict_get (children_map al) k = sort (child_ids al k)"
  by (simp add: dict_get_def children_map_def group_children_get)

lemma child_ids_set:
  "set (child_ids al k) = {nid. \<exists>node. (nid, node) \<in> set al \<and> parent_id node = k}"
  by (force simp: child_ids_def)

lemma child_ids_distinct: "distinct (map fst al) \<Longrightarrow> distinct (child_ids al k)"
  by (simp add: child_ids_def distinct_map_filter)

lemma children_map_perm:
  assumes "distinct (map fst t1)" "distinct (map fst t2)" "set t1 = set t2"
  shows "children_map t1 = children_map t2"
proof
  fix k
  have s: "sort (child_ids t1 k) = sort (child_ids t2 k)"
  proof (rule sorted_distinct_set_unique)
    show "set (sort (child_ids t1 k)) = set (sort (child_ids t2 k))"
      using assms(3) by (simp add: child_ids_set)
  qed (simp_all add: child_ids_distinct assms)
  have "set (child_ids t1 k) = set (child_ids t2 k)"
    using assms(3) by (simp add: child_ids_set)
  then have e: "child_ids t1 k = [] \<longleftrightarrow> child_ids t2 k = []"
    by (metis set_empty)
  show "children_map t1 k = children_map t2 k"
    using s e by (simp add: children_map_def group_children_get)
qed

lemma dfs_map_of_cong:
  assumes "map_of al = map_of al'"
  shows "dfs_build f al cm sp nid pp mp = dfs_build f al' cm sp nid pp mp"
    and "dfs_children f al cm sp cs pp mp = dfs_children f al' cm sp cs pp mp"
  using assms
proof (induction f al cm sp nid pp mp and f al cm sp cs pp mp
       rule: dfs_build_dfs_children.induct)
  case (1 al cm sp nid parent_path mp)
  show ?case by simp
next
  case (2 frames al cm sp nid parent_path mp)
  show ?case
  proof (cases "map_of al nid")
    case None
    with "2.prems" show ?thesis by simp
  next
    case (Some node)
    show ?thesis
    proof (cases "mp_add_node_framed frames mp nid (cur_path sp parent_path nid) (name node)")
      case (Pair r mp')
      show ?thesis
      proof (cases r)
        case None
        from "2.IH"[OF Some Pair[symmetric] None "2.prems"] Some Pair None "2.prems"
        show ?thesis by simp
      next
        case (Some e)
        with \<open>map_of al nid = Some node\<close> Pair "2.prems" show ?thesis by simp
      qed
    qed
  qed
next
  case (3 frames al cm sp parent_path mp)
  show ?case by simp
next
  case (4 frames al cm sp c cs parent_path mp)
  show ?case
  proof (cases "dfs_build frames al cm sp c parent_path mp")
    case (Inl e)
    with "4.IH"(1)[OF "4.prems"] have "dfs_build frames al' cm sp c parent_path mp = Inl e"
      by simp
    with Inl show ?thesis by simp
  next
    case (Inr mp')
    with "4.IH"(1)[OF "4.prems"] have "dfs_build frames al' cm sp c parent_path mp = Inr mp'"
      by simp
    with Inr "4.IH"(2)[OF Inr "4.prems"] show ?thesis by simp
  qed
qed

lemma convert_same_entries:
  assumes "distinct (map fst t1)" and "distinct (map fst t2)" and "set t1 = set t2"
  shows "convert_al_to_mp frames t1 sp = convert_al_to_mp frames t2 sp"
proof -
  from assms have "map_of t1 = map_of t2" by (simp add: map_of_inject_set)
  from dfs_map_of_cong(2)[OF this]
  have "dfs_children frames t1 (children_map t1) sp (dict_get (children_map t1) None) sp
          (mp_init sp) =
        dfs_children frames t2 (children_map t1) sp (dict_get (children_map t1) None) sp
          (mp_init sp)" .
  also have "\<dots> =
        dfs_children frames t2 (children_map t2) sp (dict_get (children_map t2) None) sp
          (mp_init sp)"
    unfolding children_map_perm[OF assms] ..
  finally show ?thesis unfolding convert_al_to_mp_def by simp
qed

section \<open>Paths that convert back\<close>

lemma path_parts_segments: "sp \<noteq> [] \<Longrightarrow> path_parts sp p = Inr (segments sp p)"
  by (simp add: path_parts_def py_split_def segments_def)

lemma depth_node_depth: "sp \<noteq> [] \<Longrightarrow> depth sp (snd x) = Inr (node_depth sp x)"
  by (simp add: depth_def path_parts_segments node_depth_def)

lemma sort_keys_eq:
  "sp \<noteq> [] \<Longrightarrow> sort_keys sp items = Inr (map (\<lambda>x. (node_depth sp x, x)) items)"
  by (induction items) (simp_all add: depth_node_depth)

lemma sort_keys_empty_sep:
  "sort_keys [] items = (if items = [] then Inr [] else Inl EmptySeparator)"
  by (cases items) (simp_all add: depth_def path_parts_def py_split_def)

lemma insort_key_decorated:
  "insort_key fst (f x, x) (map (\<lambda>y. (f y, y)) ys) = map (\<lambda>y. (f y, y)) (insort_key f x ys)"
  by (induction ys) simp_all

lemma sort_key_decorated:
  "sort_key fst (map (\<lambda>y. (f y, y)) xs) = map (\<lambda>y. (f y, y)) (sort_key f xs)"
  by (induction xs) (simp_all add: insort_key_decorated)

lemma sort_items_eq:
  "sp \<noteq> [] \<Longrightarrow> sort_items sp items = Inr (sort_key (node_depth sp) items)"
  by (simp add: sort_items_def sort_keys_eq sort_key_decorated comp_def)

lemma convert_mp_to_al_eq:
  "sep mp \<noteq> [] \<Longrightarrow>
     convert_mp_to_al mp = rebuild (sep mp) (sort_key (node_depth (sep mp)) (nodes mp)) []"
  by (simp add: convert_mp_to_al_def sort_items_eq)

lemma rebuild_Cons:
  assumes "sp \<noteq> []"
  shows "rebuild sp (x # rest) al =
     (if segments sp (path (snd x)) = [] then Inl MalformedPath
      else if last (segments sp (path (snd x))) \<noteq> fst x then Inl PathIdentityMismatch
      else (case al_add_node al (fst x) (parent_id (snd (al_node_of sp x))) (mp_name (snd x)) of
              (Some e, _) \<Rightarrow> Inl e
            | (None, al') \<Rightarrow> rebuild sp rest al'))"
  by (cases x) (simp add: path_parts_segments[OF assms] al_node_of_def)

lemma rebuild_append:
  "rebuild sp (xs @ ys) al =
     (case rebuild sp xs al of Inl e \<Rightarrow> Inl e | Inr al' \<Rightarrow> rebuild sp ys al')"
proof (induction xs arbitrary: al)
  case Nil
  show ?case by simp
next
  case (Cons x xs)
  obtain nid node where x: "x = (nid, node)" by (cases x)
  show ?case
    unfolding x append_Cons rebuild.simps Cons.IH
    by (simp split: sum.splits prod.splits option.splits)
qed

lemma rebuild_insertable:
  assumes "sp \<noteq> []"
  shows "insertable sp (map fst al) items \<Longrightarrow>
     rebuild sp items al = Inr (al @ map (al_node_of sp) items)"
proof (induction items arbitrary: al)
  case Nil
  show ?case by simp
next
  case (Cons x rest)
  let ?al' = "al @ [al_node_of sp x]"
  from Cons.prems have
    n: "names_itself sp x" and f: "fst x \<notin> set (map fst al)" and
    p: "node_depth sp x = 1 \<or> segments sp (path (snd x)) ! (node_depth sp x - 2) \<in> set (map fst al)" and
    r: "insertable sp (map fst al @ [fst x]) rest"
    by simp_all
  have a: "al_add_node al (fst x) (parent_id (snd (al_node_of sp x))) (mp_name (snd x)) = (None, ?al')"
    using f p by (auto simp: al_add_node_def has_key_def al_node_of_def node_depth_def)
  have "map fst ?al' = map fst al @ [fst x]" by (simp add: al_node_of_def)
  with r have "insertable sp (map fst ?al') rest" by simp
  from Cons.IH[OF this] have "rebuild sp rest ?al' = Inr (al @ map (al_node_of sp) (x # rest))"
    by simp
  with n a show ?case
    unfolding rebuild_Cons[OF assms] by (simp add: names_itself_def)
qed

lemma sorted_smaller_before:
  assumes "sorted (map f (pre @ x # post))" and "y \<in> set (pre @ x # post)" and "f y < f x"
  shows "y \<in> set pre"
proof (rule ccontr)
  assume "y \<notin> set pre"
  with assms(2) have "y \<in> set (x # post)" by auto
  with assms(1) have "f x \<le> f y" by (auto simp: sorted_append)
  with assms(3) show False by simp
qed

lemma sorted_insertable:
  assumes s: "sorted (map (node_depth sp) (pre @ mid @ post))"
    and d: "distinct (map fst (pre @ mid @ post))"
    and g: "\<forall>x \<in> set mid. names_itself sp x \<and> parent_known sp (pre @ mid @ post) x"
  shows "insertable sp (map fst pre) mid"
  using assms
proof (induction mid arbitrary: pre)
  case Nil
  show ?case by simp
next
  case (Cons x mid)
  have e: "pre @ (x # mid) @ post = (pre @ [x]) @ mid @ post" by simp
  from Cons.prems(3) have n: "names_itself sp x" and
    k: "parent_known sp (pre @ (x # mid) @ post) x" by simp_all
  from Cons.prems(2) have f: "fst x \<notin> set (map fst pre)" by auto
  have p: "node_depth sp x = 1 \<or>
       segments sp (path (snd x)) ! (node_depth sp x - 2) \<in> set (map fst pre)"
  proof (cases "node_depth sp x = 1")
    case False
    with k obtain y where y: "y \<in> set (pre @ x # mid @ post)"
      "fst y = segments sp (path (snd x)) ! (node_depth sp x - 2)"
      "node_depth sp y < node_depth sp x"
      by (auto simp: parent_known_def list_ex_iff)
    from Cons.prems(1) have "sorted (map (node_depth sp) (pre @ x # (mid @ post)))" by simp
    from sorted_smaller_before[OF this _ y(3)] y(1) have "y \<in> set pre" by simp
    with y(2) show ?thesis by force
  qed simp
  have "insertable sp (map fst (pre @ [x])) mid"
  proof (rule Cons.IH)
    show "sorted (map (node_depth sp) ((pre @ [x]) @ mid @ post))"
      using Cons.prems(1) by simp
    show "distinct (map fst ((pre @ [x]) @ mid @ post))"
      using Cons.prems(2) by simp
    show "\<forall>z\<in>set mid. names_itself sp z \<and> parent_known sp ((pre @ [x]) @ mid @ post) z"
      using Cons.prems(3) by simp
  qed
  with n f p show ?case by simp
qed

lemma well_formed_rebuilds:
  assumes "well_formed mp"
  shows "convert_mp_to_al mp =
     Inr (map (al_node_of (sep mp)) (sort_key (node_depth (sep mp)) (nodes mp)))"
proof -
  let ?sp = "sep mp" and ?s = "sort_key (node_depth (sep mp)) (nodes mp)"
  from assms have sp: "?sp \<noteq> []" and d: "distinct (map fst (nodes mp))" and
    g: "\<forall>x \<in> set (nodes mp). names_itself ?sp x \<and> parent_known ?sp (nodes mp) x"
    by (simp_all add: well_formed_def list_all_iff)
  have pk: "parent_known ?sp ?s x = parent_known ?sp (nodes mp) x" for x
    by (simp add: parent_known_def list_ex_iff)
  have "insertable ?sp (map fst ([] :: (string \<times> MPNode) list)) ?s"
  proof (rule sorted_insertable[where post = "[]"])
    show "sorted (map (node_depth ?sp) ([] @ ?s @ []))" by simp
    have "distinct (map fst ?s)"
      using d by (metis distinct_map distinct_sort set_sort)
    then show "distinct (map fst ([] @ ?s @ []))" by simp
    show "\<forall>x\<in>set ?s. names_itself ?sp x \<and> parent_known ?sp ([] @ ?s @ []) x"
      using g pk by simp
  qed
  then have "insertable ?sp (map fst ([] :: AdjacencyListTree)) ?s" by simp
  from rebuild_insertable[OF sp this] show ?thesis
    by (simp add: convert_mp_to_al_eq[OF sp])
qed

lemma rebuild_unnamed_fails:
  assumes "sp \<noteq> []"
  shows "x \<in> set xs \<Longrightarrow> \<not> names_itself sp x \<Longrightarrow> isl (rebuild sp xs al)"
proof (induction xs arbitrary: al)
  case Nil
  then show ?case by simp
next
  case (Cons y ys)
  show ?case
  proof (cases "names_itself sp y")
    case False
    then show ?thesis
      unfolding rebuild_Cons[OF assms] by (auto simp: names_itself_def)
  next
    case True
    with Cons.prems have "x \<in> set ys" by auto
    from Cons.IH[OF this Cons.prems(2)] show ?thesis
      unfolding rebuild_Cons[OF assms] by (auto split: prod.splits option.splits)
  qed
qed

lemma rebuild_first_failure:
  assumes "sp \<noteq> []" and "rebuild sp pre [] = Inr al"
    and "segments sp (path (snd x)) \<noteq> []" and "last (segments sp (path (snd x))) \<noteq> fst x"
  shows "rebuild sp (pre @ x # post) [] = Inl PathIdentityMismatch"
  using assms(2-) unfolding rebuild_append rebuild_Cons[OF assms(1)] by simp

lemma zero_segments_fail:
  assumes sp: "sep mp \<noteq> []" and x: "x \<in> set (nodes mp)"
    and z: "segments (sep mp) (path (snd x)) = []"
  shows "convert_mp_to_al mp = Inl MalformedPath"
proof -
  let ?f = "node_depth (sep mp)" and ?s = "sort_key (node_depth (sep mp)) (nodes mp)"
  from x have "?s \<noteq> []" by (metis empty_iff empty_set set_sort)
  then obtain h t where s: "?s = h # t" by (cases ?s) auto
  have "sorted (map ?f ?s)" by simp
  moreover from x have "x \<in> set ?s" by simp
  ultimately have "?f h \<le> ?f x" unfolding s by auto
  with z have "segments (sep mp) (path (snd h)) = []" by (simp add: node_depth_def)
  then show ?thesis
    unfolding convert_mp_to_al_eq[OF sp] s rebuild_Cons[OF sp] by simp
qed

lemma mismatch_fails_first:
  assumes sp: "sep mp \<noteq> []" and d: "distinct (map fst (nodes mp))"
    and g: "\<forall>x \<in> set (nodes mp). segments (sep mp) (path (snd x)) \<noteq> [] \<and>
              (last (segments (sep mp) (path (snd x))) = fst x \<longrightarrow> parent_known (sep mp) (nodes mp) x)"
    and b: "\<exists>x \<in> set (nodes mp). last (segments (sep mp) (path (snd x))) \<noteq> fst x"
  shows "convert_mp_to_al mp = Inl PathIdentityMismatch"
proof -
  let ?sp = "sep mp"
  let ?s = "sort_key (node_depth ?sp) (nodes mp)"
  let ?pre = "takeWhile (names_itself ?sp) ?s" and ?suf = "dropWhile (names_itself ?sp) ?s"
  from b obtain x where "x \<in> set ?s" "\<not> names_itself ?sp x"
    by (auto simp: names_itself_def)
  then have "?suf \<noteq> []" by auto
  then obtain y post where suf: "?suf = y # post" by (cases ?suf) auto
  then have ny: "\<not> names_itself ?sp y" by (metis hd_dropWhile list.sel(1) list.distinct(1))
  have split: "?s = ?pre @ ?suf" by simp
  have "y \<in> set ?s" by (metis suf list.set_intros(1) set_dropWhileD)
  then have yn: "y \<in> set (nodes mp)" by simp
  with g ny have y1: "segments ?sp (path (snd y)) \<noteq> []"
    and y2: "last (segments ?sp (path (snd y))) \<noteq> fst y"
    by (auto simp: names_itself_def)
  have pk: "parent_known ?sp ([] @ ?pre @ ?suf) z = parent_known ?sp (nodes mp) z" for z
    by (simp add: parent_known_def list_ex_iff)
  have "insertable ?sp (map fst ([] :: (string \<times> MPNode) list)) ?pre"
  proof (rule sorted_insertable[where post = ?suf])
    show "sorted (map (node_depth ?sp) ([] @ ?pre @ ?suf))" by simp
    have "distinct (map fst ?s)"
      using d by (metis distinct_map distinct_sort set_sort)
    then show "distinct (map fst ([] @ ?pre @ ?suf))" by simp
    show "\<forall>z\<in>set ?pre. names_itself ?sp z \<and> parent_known ?sp ([] @ ?pre @ ?suf) z"
    proof
      fix z assume z: "z \<in> set ?pre"
      then have n: "names_itself ?sp z" by (rule set_takeWhileD[THEN conjunct2])
      from z have "z \<in> set (nodes mp)" by (metis set_takeWhileD set_sort)
      with g n have "parent_known ?sp (nodes mp) z" by (simp add: names_itself_def)
      with n pk show "names_itself ?sp z \<and> parent_known ?sp ([] @ ?pre @ ?suf) z" by simp
    qed
  qed
  then have "insertable ?sp (map fst ([] :: AdjacencyListTree)) ?pre" by simp
  from rebuild_insertable[OF sp this]
  have "rebuild ?sp ?pre [] = Inr (map (al_node_of ?sp) ?pre)" by simp
  from rebuild_first_failure[OF sp this y1 y2, of post]
  have "rebuild ?sp ?s [] = Inl PathIdentityMismatch"
    using split suf by simp
  then show ?thesis by (simp add: convert_mp_to_al_eq[OF sp])
qed

text \<open>
  C5. On a well-formed path tree the reverse converter does not fail. It takes the entries
  in ascending order of depth (a stable sort of the dictionary's order), finds each entry
  insertable when its turn comes (the identifier is new, and the parent, for a path that
  has more than one segment, is already in the tree), and the tree it returns holds, in this
  order, a root for every path of one segment and, for every deeper path, a node whose
  parent is the segment before the last.
\<close>

theorem convert_mp_to_al_depth_order:
  assumes "well_formed mp"
  shows "sort_items (sep mp) (nodes mp) = Inr (sort_key (node_depth (sep mp)) (nodes mp)) \<and>
         sorted (map (node_depth (sep mp)) (sort_key (node_depth (sep mp)) (nodes mp))) \<and>
         insertable (sep mp) [] (sort_key (node_depth (sep mp)) (nodes mp)) \<and>
         convert_mp_to_al mp =
           Inr (map (al_node_of (sep mp)) (sort_key (node_depth (sep mp)) (nodes mp)))"
proof -
  let ?sp = "sep mp" and ?s = "sort_key (node_depth (sep mp)) (nodes mp)"
  from assms have sp: "?sp \<noteq> []" and d: "distinct (map fst (nodes mp))" and
    g: "\<forall>x \<in> set (nodes mp). names_itself ?sp x \<and> parent_known ?sp (nodes mp) x"
    by (simp_all add: well_formed_def list_all_iff)
  have pk: "parent_known ?sp ?s x = parent_known ?sp (nodes mp) x" for x
    by (simp add: parent_known_def list_ex_iff)
  have "insertable ?sp (map fst ([] :: (string \<times> MPNode) list)) ?s"
  proof (rule sorted_insertable[where post = "[]"])
    show "sorted (map (node_depth ?sp) ([] @ ?s @ []))" by simp
    have "distinct (map fst ?s)"
      using d by (metis distinct_map distinct_sort set_sort)
    then show "distinct (map fst ([] @ ?s @ []))" by simp
    show "\<forall>x\<in>set ?s. names_itself ?sp x \<and> parent_known ?sp ([] @ ?s @ []) x"
      using g pk by simp
  qed
  then have i: "insertable ?sp [] ?s" by simp
  have "sorted (map (node_depth ?sp) ?s)" by simp
  with i sort_items_eq[OF sp] well_formed_rebuilds[OF assms] show ?thesis by blast
qed

theorem convert_mp_to_al_depth_order_witness:
  "well_formed
     \<lparr>sep = ''/'', nodes = [(''A'', \<lparr>mp_node_id = ''A'', path = ''/A'', mp_name = ''a''\<rparr>),
       (''B'', \<lparr>mp_node_id = ''B'', path = ''/A/B'', mp_name = ''b''\<rparr>),
       (''D'', \<lparr>mp_node_id = ''D'', path = ''/A/B/D'', mp_name = ''d''\<rparr>),
       (''C'', \<lparr>mp_node_id = ''C'', path = ''/A/C'', mp_name = ''c''\<rparr>)]\<rparr> \<and>
   convert_mp_to_al
     \<lparr>sep = ''/'', nodes = [(''A'', \<lparr>mp_node_id = ''A'', path = ''/A'', mp_name = ''a''\<rparr>),
       (''B'', \<lparr>mp_node_id = ''B'', path = ''/A/B'', mp_name = ''b''\<rparr>),
       (''D'', \<lparr>mp_node_id = ''D'', path = ''/A/B/D'', mp_name = ''d''\<rparr>),
       (''C'', \<lparr>mp_node_id = ''C'', path = ''/A/C'', mp_name = ''c''\<rparr>)]\<rparr> =
   Inr [(''A'', \<lparr>node_id = ''A'', parent_id = None, name = ''a''\<rparr>),
        (''B'', \<lparr>node_id = ''B'', parent_id = Some ''A'', name = ''b''\<rparr>),
        (''C'', \<lparr>node_id = ''C'', parent_id = Some ''A'', name = ''c''\<rparr>),
        (''D'', \<lparr>node_id = ''D'', parent_id = Some ''B'', name = ''d''\<rparr>)]"
proof -
  have w: "well_formed
     \<lparr>sep = ''/'', nodes = [(''A'', \<lparr>mp_node_id = ''A'', path = ''/A'', mp_name = ''a''\<rparr>),
       (''B'', \<lparr>mp_node_id = ''B'', path = ''/A/B'', mp_name = ''b''\<rparr>),
       (''D'', \<lparr>mp_node_id = ''D'', path = ''/A/B/D'', mp_name = ''d''\<rparr>),
       (''C'', \<lparr>mp_node_id = ''C'', path = ''/A/C'', mp_name = ''c''\<rparr>)]\<rparr>"
    by code_simp
  have e: "map (al_node_of ''/'') (sort_key (node_depth ''/'')
      [(''A'', \<lparr>mp_node_id = ''A'', path = ''/A'', mp_name = ''a''\<rparr>), (''B'', \<lparr>mp_node_id = ''B'', path = ''/A/B'', mp_name = ''b''\<rparr>),
       (''D'', \<lparr>mp_node_id = ''D'', path = ''/A/B/D'', mp_name = ''d''\<rparr>), (''C'', \<lparr>mp_node_id = ''C'', path = ''/A/C'', mp_name = ''c''\<rparr>)]) =
    [(''A'', \<lparr>node_id = ''A'', parent_id = None, name = ''a''\<rparr>),
        (''B'', \<lparr>node_id = ''B'', parent_id = Some ''A'', name = ''b''\<rparr>),
        (''C'', \<lparr>node_id = ''C'', parent_id = Some ''A'', name = ''c''\<rparr>),
        (''D'', \<lparr>node_id = ''D'', parent_id = Some ''B'', name = ''d''\<rparr>)]"
    by code_simp
  from convert_mp_to_al_depth_order [OF w] w e show ?thesis by simp
qed

text \<open>
  C6, as the code has it. With a non-empty delimiter the reverse converter fails with
  MalformedPath when some path has no segment. When the last segment of some path is not
  the identifier of its node, the converter fails; it fails with PathIdentityMismatch when
  that node is the first, in the order of processing, at which a check fails: so when the
  nodes before it were inserted, and so when every path has a segment and every node that
  names itself has a known parent. A tree whose only node is \<open>Z\<close> with the path \<open>/X/Y\<close>
  fails with PathIdentityMismatch.
\<close>

theorem convert_mp_to_al_failures:
  "(sep mp \<noteq> [] \<and> x \<in> set (nodes mp) \<and> segments (sep mp) (path (snd x)) = [] \<longrightarrow>
      convert_mp_to_al mp = Inl MalformedPath) \<and>
   (sep mp \<noteq> [] \<and> x \<in> set (nodes mp) \<and> last (segments (sep mp) (path (snd x))) \<noteq> fst x \<longrightarrow>
      isl (convert_mp_to_al mp)) \<and>
   (sep mp \<noteq> [] \<and> sort_items (sep mp) (nodes mp) = Inr (pre @ x # post) \<and>
      rebuild (sep mp) pre [] = Inr al \<and>
      segments (sep mp) (path (snd x)) \<noteq> [] \<and> last (segments (sep mp) (path (snd x))) \<noteq> fst x \<longrightarrow>
      convert_mp_to_al mp = Inl PathIdentityMismatch) \<and>
   (sep mp \<noteq> [] \<and> distinct (map fst (nodes mp)) \<and>
      list_all (\<lambda>y. segments (sep mp) (path (snd y)) \<noteq> [] \<and>
          (last (segments (sep mp) (path (snd y))) = fst y \<longrightarrow> parent_known (sep mp) (nodes mp) y))
        (nodes mp) \<and>
      x \<in> set (nodes mp) \<and> last (segments (sep mp) (path (snd x))) \<noteq> fst x \<longrightarrow>
      convert_mp_to_al mp = Inl PathIdentityMismatch) \<and>
   convert_mp_to_al \<lparr>sep = ''/'', nodes = [(''Z'', \<lparr>mp_node_id = ''Z'', path = ''/X/Y'', mp_name = nm\<rparr>)]\<rparr>
     = Inl PathIdentityMismatch"
proof (intro conjI impI)
  assume "sep mp \<noteq> [] \<and> x \<in> set (nodes mp) \<and> segments (sep mp) (path (snd x)) = []"
  then show "convert_mp_to_al mp = Inl MalformedPath"
    using zero_segments_fail by blast
next
  assume a: "sep mp \<noteq> [] \<and> x \<in> set (nodes mp) \<and> last (segments (sep mp) (path (snd x))) \<noteq> fst x"
  then have "\<not> names_itself (sep mp) x" by (simp add: names_itself_def)
  with a have "isl (rebuild (sep mp) (sort_key (node_depth (sep mp)) (nodes mp)) [])"
    by (intro rebuild_unnamed_fails[where x = x]) simp_all
  with a show "isl (convert_mp_to_al mp)" by (simp add: convert_mp_to_al_eq)
next
  assume a: "sep mp \<noteq> [] \<and> sort_items (sep mp) (nodes mp) = Inr (pre @ x # post) \<and>
      rebuild (sep mp) pre [] = Inr al \<and>
      segments (sep mp) (path (snd x)) \<noteq> [] \<and> last (segments (sep mp) (path (snd x))) \<noteq> fst x"
  then have "rebuild (sep mp) (pre @ x # post) [] = Inl PathIdentityMismatch"
    by (intro rebuild_first_failure) simp_all
  with a show "convert_mp_to_al mp = Inl PathIdentityMismatch"
    by (simp add: convert_mp_to_al_def)
next
  assume a: "sep mp \<noteq> [] \<and> distinct (map fst (nodes mp)) \<and>
      list_all (\<lambda>y. segments (sep mp) (path (snd y)) \<noteq> [] \<and>
          (last (segments (sep mp) (path (snd y))) = fst y \<longrightarrow> parent_known (sep mp) (nodes mp) y))
        (nodes mp) \<and>
      x \<in> set (nodes mp) \<and> last (segments (sep mp) (path (snd x))) \<noteq> fst x"
  show "convert_mp_to_al mp = Inl PathIdentityMismatch"
  proof (rule mismatch_fails_first)
    from a show "sep mp \<noteq> []" and "distinct (map fst (nodes mp))" by simp_all
    from a show "\<forall>x \<in> set (nodes mp). segments (sep mp) (path (snd x)) \<noteq> [] \<and>
              (last (segments (sep mp) (path (snd x))) = fst x \<longrightarrow> parent_known (sep mp) (nodes mp) x)"
      by (simp add: list_all_iff)
    from a show "\<exists>x \<in> set (nodes mp). last (segments (sep mp) (path (snd x))) \<noteq> fst x"
      by blast
  qed
next
  have "segments ''/'' ''/X/Y'' = [''X'', ''Y'']" by code_simp
  then show "convert_mp_to_al \<lparr>sep = ''/'', nodes = [(''Z'', \<lparr>mp_node_id = ''Z'', path = ''/X/Y'', mp_name = nm\<rparr>)]\<rparr>
     = Inl PathIdentityMismatch"
    by (simp add: convert_mp_to_al_eq path_parts_segments)
qed

theorem convert_mp_to_al_failures_witness:
  "segments ''/'' ''/'' = [] \<and>
   convert_mp_to_al
     \<lparr>sep = ''/'', nodes = [(''A'', \<lparr>mp_node_id = ''A'', path = ''/A'', mp_name = ''a''\<rparr>), (''E'', \<lparr>mp_node_id = ''E'', path = ''/'', mp_name = ''e''\<rparr>)]\<rparr> = Inl MalformedPath \<and>
   last (segments ''/'' ''/A/Y'') \<noteq> ''Z'' \<and>
   sort_items ''/'' [(''A'', \<lparr>mp_node_id = ''A'', path = ''/A'', mp_name = ''a''\<rparr>), (''Z'', \<lparr>mp_node_id = ''Z'', path = ''/A/Y'', mp_name = ''z''\<rparr>)] =
     Inr ([(''A'', \<lparr>mp_node_id = ''A'', path = ''/A'', mp_name = ''a''\<rparr>)] @ (''Z'', \<lparr>mp_node_id = ''Z'', path = ''/A/Y'', mp_name = ''z''\<rparr>) # []) \<and>
   rebuild ''/'' [(''A'', \<lparr>mp_node_id = ''A'', path = ''/A'', mp_name = ''a''\<rparr>)] [] =
     Inr [(''A'', \<lparr>node_id = ''A'', parent_id = None, name = ''a''\<rparr>)] \<and>
   convert_mp_to_al
     \<lparr>sep = ''/'', nodes = [(''A'', \<lparr>mp_node_id = ''A'', path = ''/A'', mp_name = ''a''\<rparr>), (''Z'', \<lparr>mp_node_id = ''Z'', path = ''/A/Y'', mp_name = ''z''\<rparr>)]\<rparr> = Inl PathIdentityMismatch \<and>
   isl (convert_mp_to_al
     \<lparr>sep = ''/'', nodes = [(''A'', \<lparr>mp_node_id = ''A'', path = ''/A'', mp_name = ''a''\<rparr>), (''Z'', \<lparr>mp_node_id = ''Z'', path = ''/A/Y'', mp_name = ''z''\<rparr>)]\<rparr>)"
proof -
  have s1: "segments ''/'' ''/'' = []" by code_simp
  have s2: "segments ''/'' ''/A/Y'' = [''A'', ''Y'']" by code_simp
  have s3: "sort_items ''/'' [(''A'', \<lparr>mp_node_id = ''A'', path = ''/A'', mp_name = ''a''\<rparr>), (''Z'', \<lparr>mp_node_id = ''Z'', path = ''/A/Y'', mp_name = ''z''\<rparr>)] =
     Inr ([(''A'', \<lparr>mp_node_id = ''A'', path = ''/A'', mp_name = ''a''\<rparr>)] @ (''Z'', \<lparr>mp_node_id = ''Z'', path = ''/A/Y'', mp_name = ''z''\<rparr>) # [])"
    by code_simp
  have s4: "rebuild ''/'' [(''A'', \<lparr>mp_node_id = ''A'', path = ''/A'', mp_name = ''a''\<rparr>)] [] =
     Inr [(''A'', \<lparr>node_id = ''A'', parent_id = None, name = ''a''\<rparr>)]"
    by code_simp
  from s1 s2 s3 s4
    convert_mp_to_al_failures [where mp = "\<lparr>sep = ''/'', nodes = [(''A'', \<lparr>mp_node_id = ''A'', path = ''/A'', mp_name = ''a''\<rparr>), (''E'', \<lparr>mp_node_id = ''E'', path = ''/'', mp_name = ''e''\<rparr>)]\<rparr>"
      and x = "(''E'', \<lparr>mp_node_id = ''E'', path = ''/'', mp_name = ''e''\<rparr>)"]
    convert_mp_to_al_failures [where mp = "\<lparr>sep = ''/'', nodes = [(''A'', \<lparr>mp_node_id = ''A'', path = ''/A'', mp_name = ''a''\<rparr>), (''Z'', \<lparr>mp_node_id = ''Z'', path = ''/A/Y'', mp_name = ''z''\<rparr>)]\<rparr>"
      and x = "(''Z'', \<lparr>mp_node_id = ''Z'', path = ''/A/Y'', mp_name = ''z''\<rparr>)"
      and pre = "[(''A'', \<lparr>mp_node_id = ''A'', path = ''/A'', mp_name = ''a''\<rparr>)]" and post = "[]"
      and al = "[(''A'', \<lparr>node_id = ''A'', parent_id = None, name = ''a''\<rparr>)]"]
  show ?thesis by simp
qed

text \<open>
  C6 as it is stated does not hold: the node \<open>Z\<close> with the path \<open>/X/Y\<close>, in a tree built
  by \<^verbatim>\<open>add_node\<close> where the node \<open>B\<close> with the path \<open>/A/B\<close> comes first, is never looked
  at, since \<open>B\<close> has the same depth, is processed first, and its parent \<open>A\<close> is unknown.
\<close>

theorem convert_mp_to_al_mismatch_counterexample:
  "mp_add_node (mp_init ''/'') ''B'' ''/A/B'' ''b'' =
     (None, \<lparr>sep = ''/'', nodes = [(''B'', \<lparr>mp_node_id = ''B'', path = ''/A/B'', mp_name = ''b''\<rparr>)]\<rparr>) \<and>
   mp_add_node \<lparr>sep = ''/'', nodes = [(''B'', \<lparr>mp_node_id = ''B'', path = ''/A/B'', mp_name = ''b''\<rparr>)]\<rparr> ''Z'' ''/X/Y'' ''z'' =
     (None, \<lparr>sep = ''/'', nodes = [(''B'', \<lparr>mp_node_id = ''B'', path = ''/A/B'', mp_name = ''b''\<rparr>), (''Z'', \<lparr>mp_node_id = ''Z'', path = ''/X/Y'', mp_name = ''z''\<rparr>)]\<rparr>) \<and>
   path_parts ''/'' ''/X/Y'' = Inr [''X'', ''Y''] \<and>
   convert_mp_to_al
     \<lparr>sep = ''/'', nodes = [(''B'', \<lparr>mp_node_id = ''B'', path = ''/A/B'', mp_name = ''b''\<rparr>), (''Z'', \<lparr>mp_node_id = ''Z'', path = ''/X/Y'', mp_name = ''z''\<rparr>)]\<rparr> = Inl UnknownParent"
  by code_simp

section \<open>Chains of ancestors\<close>

lemma key_map_of: "n \<in> set (map fst t) \<Longrightarrow> \<exists>node. map_of t n = Some node"
  by (metis map_of_eq_None_iff not_Some_eq set_map)

lemma map_of_key: "map_of t n = Some node \<Longrightarrow> n \<in> set (map fst t)"
  by (metis map_of_eq_None_iff option.distinct(1) set_map)

lemma climbs_key: "climbs_to_root t k n \<Longrightarrow> n \<in> set (map fst t)"
  by (cases k) (auto simp: climbs_0_iff climbs_Suc_iff dest: map_of_key)

lemma climbs_parent:
  "climbs_to_root t k n \<Longrightarrow> parent_of t n = Some p \<Longrightarrow> \<exists>j. k = Suc j \<and> climbs_to_root t j p"
  by (cases k) (auto simp: climbs_0_iff climbs_Suc_iff parent_of_def)

lemma chain_of_fuel: "climbs_to_root t k n \<Longrightarrow> chain_of t (k + j) n = chain_of t k n"
proof (induction k arbitrary: n)
  case 0
  then have "parent_of t n = None" by (auto simp: climbs_0_iff parent_of_def)
  then show ?case by (cases j) simp_all
next
  case (Suc k)
  show ?case
  proof (cases "parent_of t n")
    case None
    then show ?thesis by simp
  next
    case (Some p)
    from climbs_parent[OF Suc.prems Some] have "climbs_to_root t k p" by simp
    from Suc.IH[OF this] Some show ?thesis by simp
  qed
qed

lemma chain_root:
  "parent_of t n = None \<Longrightarrow> chain t n = [n]"
  by (cases "length t") (simp_all add: chain_def)

lemma chain_child:
  assumes "forest t" and "n \<in> set (map fst t)" and "parent_of t n = Some p"
  shows "p \<in> set (map fst t) \<and> chain t n = chain t p @ [n]"
proof -
  from forestD[OF assms(1,2)] have c: "climbs_to_root t (length t) n" .
  from climbs_parent[OF c assms(3)] obtain j where
    j: "length t = Suc j" and cp: "climbs_to_root t j p" by blast
  from chain_of_fuel[OF cp, of 1] have "chain_of t (Suc j) p = chain_of t j p" by simp
  with j assms(3) have "chain t n = chain t p @ [n]" by (simp add: chain_def)
  with climbs_key[OF cp] show ?thesis by simp
qed

lemma chain_last:
  assumes "forest t" and "n \<in> set (map fst t)"
  shows "chain t n \<noteq> [] \<and> last (chain t n) = n"
proof (cases "parent_of t n")
  case None
  then show ?thesis by (simp add: chain_root)
next
  case (Some p)
  with chain_child[OF assms] show ?thesis by simp
qed

lemma chain_length_root:
  assumes "forest t" and "n \<in> set (map fst t)"
  shows "length (chain t n) = 1 \<longleftrightarrow> parent_of t n = None"
proof (cases "parent_of t n")
  case None
  then show ?thesis by (simp add: chain_root)
next
  case (Some p)
  from chain_child[OF assms Some] chain_last[OF assms(1), of p] Some
  show ?thesis by (cases "chain t p") auto
qed

lemma chain_prefix:
  assumes "forest t"
  shows "n \<in> set (map fst t) \<Longrightarrow> xs \<noteq> [] \<Longrightarrow> prefix xs (chain t n) \<Longrightarrow>
     last xs \<in> set (map fst t) \<and> chain t (last xs) = xs"
proof (induction "length (chain t n)" arbitrary: n rule: less_induct)
  case less
  show ?case
  proof (cases "parent_of t n")
    case None
    with less.prems have "xs = [n]" by (cases xs) (auto simp: chain_root)
    with None less.prems(1) show ?thesis by (simp add: chain_root)
  next
    case (Some p)
    from chain_child[OF assms less.prems(1) Some] have
      p: "p \<in> set (map fst t)" and c: "chain t n = chain t p @ [n]" by simp_all
    from less.prems(3) c have "xs = chain t p @ [n] \<or> prefix xs (chain t p)"
      by (simp add: prefix_snoc)
    then show ?thesis
    proof
      assume "xs = chain t p @ [n]"
      with c less.prems(1) show ?thesis by simp
    next
      assume q: "prefix xs (chain t p)"
      have "length (chain t p) < length (chain t n)" by (simp add: c)
      from less.hyps[OF this p less.prems(2) q] show ?thesis .
    qed
  qed
qed

lemma subtree_self: "n \<in> set (map fst t) \<Longrightarrow> n \<in> subtree t n"
  by (simp add: subtree_def)

lemma subtree_keys: "subtree t n \<subseteq> set (map fst t)"
  by (auto simp: subtree_def)

lemma subtree_child_subset:
  assumes "forest t" and "c \<in> set (map fst t)" and "parent_of t c = Some n"
  shows "subtree t c \<subseteq> subtree t n" and "n \<notin> subtree t c"
proof -
  from chain_child[OF assms] have c: "chain t c = chain t n @ [c]" by simp
  show "subtree t c \<subseteq> subtree t n"
    by (auto simp: subtree_def c dest: append_prefixD)
  show "n \<notin> subtree t c"
  proof
    assume "n \<in> subtree t c"
    then have "prefix (chain t n @ [c]) (chain t n)" by (simp add: subtree_def c)
    then have "length (chain t n @ [c]) \<le> length (chain t n)" by (rule prefix_length_le)
    then show False by simp
  qed
qed

lemma subtree_siblings_disjoint:
  assumes "forest t" and "a \<in> set (map fst t)" and "b \<in> set (map fst t)"
    and "parent_of t a = parent_of t b" and "a \<noteq> b"
  shows "subtree t a \<inter> subtree t b = {}"
proof -
  have len: "length (chain t a) = length (chain t b)"
  proof (cases "parent_of t a")
    case None
    with assms(4) show ?thesis by (simp add: chain_root)
  next
    case (Some p)
    with assms(4) chain_child[OF assms(1,2), of p] chain_child[OF assms(1,3), of p]
    show ?thesis by simp
  qed
  show ?thesis
  proof (rule ccontr)
    assume "subtree t a \<inter> subtree t b \<noteq> {}"
    then obtain m where "prefix (chain t a) (chain t m)" "prefix (chain t b) (chain t m)"
      by (auto simp: subtree_def)
    then have "prefix (chain t a) (chain t b) \<or> prefix (chain t b) (chain t a)"
      by (rule prefix_same_cases)
    with len have "chain t a = chain t b"
      by (auto simp: prefix_def)
    with chain_last[OF assms(1,2)] chain_last[OF assms(1,3)] assms(5) show False by metis
  qed
qed

lemma subtree_unfold:
  assumes "forest t" and "n \<in> set (map fst t)"
  shows "subtree t n =
     insert n (\<Union>c \<in> {c \<in> set (map fst t). parent_of t c = Some n}. subtree t c)"
proof (intro equalityI subsetI)
  fix m assume m: "m \<in> subtree t n"
  then have mk: "m \<in> set (map fst t)" and pre: "prefix (chain t n) (chain t m)"
    by (simp_all add: subtree_def)
  show "m \<in> insert n (\<Union>c \<in> {c \<in> set (map fst t). parent_of t c = Some n}. subtree t c)"
  proof (cases "chain t m = chain t n")
    case True
    with chain_last[OF assms] chain_last[OF assms(1) mk] have "m = n" by metis
    then show ?thesis by simp
  next
    case False
    with pre obtain r rest where r: "chain t m = chain t n @ r # rest"
      by (metis prefixE append_Nil2 list.exhaust)
    let ?xs = "chain t n @ [r]"
    have "prefix ?xs (chain t m)" by (simp add: r)
    from chain_prefix[OF assms(1) mk _ this] have
      rk: "r \<in> set (map fst t)" and rc: "chain t r = chain t n @ [r]" by simp_all
    have "parent_of t r = Some n"
    proof (cases "parent_of t r")
      case None
      with rc chain_last[OF assms] show ?thesis by (simp add: chain_root)
    next
      case (Some p)
      from chain_child[OF assms(1) rk Some] rc have
        "p \<in> set (map fst t)" "chain t p = chain t n" by simp_all
      with chain_last[OF assms(1), of p] chain_last[OF assms] Some show ?thesis by metis
    qed
    moreover have "m \<in> subtree t r"
      using mk by (simp add: subtree_def rc r)
    ultimately show ?thesis using rk by blast
  qed
next
  fix m assume "m \<in> insert n (\<Union>c \<in> {c \<in> set (map fst t). parent_of t c = Some n}. subtree t c)"
  then show "m \<in> subtree t n"
    using subtree_self[OF assms(2)] subtree_child_subset(1)[OF assms(1)] by blast
qed

lemma roots_cover:
  assumes "forest t"
  shows "(\<Union>r \<in> {r \<in> set (map fst t). parent_of t r = None}. subtree t r) = set (map fst t)"
proof (intro equalityI subsetI)
  fix m assume mk: "m \<in> set (map fst t)"
  from chain_last[OF assms mk] obtain r rest where r: "chain t m = r # rest"
    by (cases "chain t m") auto
  then have "prefix [r] (chain t m)" by simp
  from chain_prefix[OF assms mk _ this] have
    rk: "r \<in> set (map fst t)" and rc: "chain t r = [r]" by simp_all
  then have "parent_of t r = None"
    using chain_length_root[OF assms rk] by simp
  moreover have "m \<in> subtree t r" using mk by (simp add: subtree_def rc r)
  ultimately show "m \<in> (\<Union>r \<in> {r \<in> set (map fst t). parent_of t r = None}. subtree t r)"
    using rk by blast
next
  fix m assume "m \<in> (\<Union>r \<in> {r \<in> set (map fst t). parent_of t r = None}. subtree t r)"
  then show "m \<in> set (map fst t)" using subtree_keys by blast
qed

lemma child_ids_parent_of:
  assumes "distinct (map fst t)"
  shows "set (child_ids t k) = {c \<in> set (map fst t). parent_of t c = k}"
proof (intro equalityI subsetI)
  fix c assume "c \<in> set (child_ids t k)"
  then obtain node where n: "(c, node) \<in> set t" "parent_id node = k"
    unfolding child_ids_set by blast
  from assms n(1) have m: "map_of t c = Some node" by (rule map_of_is_SomeI)
  then have "parent_of t c = k" using n(2) by (simp add: parent_of_def)
  moreover from m have "c \<in> set (map fst t)" by (rule map_of_key)
  ultimately show "c \<in> {c \<in> set (map fst t). parent_of t c = k}" by simp
next
  fix c assume "c \<in> {c \<in> set (map fst t). parent_of t c = k}"
  then have ck: "c \<in> set (map fst t)" and p: "parent_of t c = k" by simp_all
  from key_map_of[OF ck] obtain node where m: "map_of t c = Some node" by blast
  then have "(c, node) \<in> set t" by (rule map_of_SomeD)
  moreover from m p have "parent_id node = k" by (simp add: parent_of_def)
  ultimately show "c \<in> set (child_ids t k)" unfolding child_ids_set by blast
qed

section \<open>The traversal visits every node once, in order\<close>

lemma join_path_snoc: "join_path sp (xs @ [x]) = join_path sp xs @ sp @ x"
  by (simp add: join_path_def)

lemma join_path_single: "join_path sp [x] = sp @ x"
  by (simp add: join_path_def)

lemma written_path_snoc:
  "written_path sp (ids @ [n]) = cur_path sp (written_path sp ids) n"
  by (simp add: written_path_def)

lemma written_path_prefix: "prefix sp (written_path sp ids)"
proof (induction ids rule: rev_induct)
  case Nil
  show ?case by (simp add: written_path_def)
next
  case (snoc n ids)
  then show ?case
    unfolding written_path_snoc cur_path_def by (auto intro: prefix_prefix)
qed

lemma written_path_join:
  "[] \<notin> set ids \<Longrightarrow> ids \<noteq> [] \<Longrightarrow> written_path sp ids = join_path sp ids"
proof (induction ids rule: rev_induct)
  case Nil
  then show ?case by simp
next
  case (snoc n ids)
  show ?case
  proof (cases "ids = []")
    case True
    then show ?thesis
      by (simp add: written_path_def cur_path_def join_path_def)
  next
    case False
    from snoc.prems have ne: "[] \<notin> set ids" by simp
    from snoc.IH[OF ne False] have w: "written_path sp ids = join_path sp ids" .
    from False obtain ys y where ys: "ids = ys @ [y]" by (metis rev_exhaust)
    with ne have "y \<noteq> []" by auto
    then have "length (join_path sp ids) > length sp" by (simp add: ys join_path_snoc)
    then have "join_path sp ids \<noteq> sp" by auto
    then show ?thesis
      unfolding written_path_snoc w by (simp add: cur_path_def join_path_snoc)
  qed
qed

lemma cur_path_written:
  assumes "forest t" and "n \<in> set (map fst t)"
    and "parent_path_ok t sp (parent_of t n) pp"
  shows "cur_path sp pp n = written_path sp (chain t n)"
proof (cases "parent_of t n")
  case None
  with assms(3) have "pp = written_path sp []" by (simp add: parent_path_ok_def)
  with written_path_snoc[of sp "[]" n] None show ?thesis by (simp add: chain_root)
next
  case (Some p)
  from chain_child[OF assms(1,2) Some] have c: "chain t n = chain t p @ [n]" by simp
  from assms(3) Some have "pp = written_path sp (chain t p)" by (simp add: parent_path_ok_def)
  then show ?thesis unfolding c written_path_snoc by simp
qed

lemma mp_add_node_framed_fresh:
  assumes "2 \<le> f" and "sep mp = sp" and "n \<notin> set (map fst (nodes mp))" and "prefix sp p"
  shows "mp_add_node_framed f mp n p nm =
     (None, mp\<lparr>nodes := nodes mp @ [(n, \<lparr>mp_node_id = n, path = p, mp_name = nm\<rparr>)]\<rparr>)"
  using assms by (simp add: mp_add_node_framed_def mp_add_node_def has_key_def)

lemma fst_mp_entry: "fst (mp_entry t sp k) = k"
  by (simp add: mp_entry_def)

lemma mp_entry_keys: "map fst (map (mp_entry t sp) ks) = ks"
  by (induction ks) (simp_all add: fst_mp_entry)

lemma mp_entry_key_set: "fst ` mp_entry t sp ` A = A"
  by (auto simp: fst_mp_entry image_iff)

lemma filter_single:
  assumes "distinct ks" and "c \<in> set ks" and "P c" and "\<forall>k \<in> set ks. P k \<longrightarrow> k = c"
  shows "filter P ks = [c]"
proof -
  from assms(2,3,4) have s: "set (filter P ks) = {c}" unfolding set_filter by blast
  from assms(1) have d: "distinct (filter P ks)" by simp
  from distinct_card[OF d] s have "length (filter P ks) = 1" by simp
  then obtain x where x: "filter P ks = [x]"
    by (cases "filter P ks") auto
  with s show ?thesis by auto
qed

lemma subtree_parent_in:
  assumes "forest t" and "m \<in> set (map fst t)" and "parent_of t m = Some p"
    and "p \<in> subtree t c"
  shows "m \<in> subtree t c"
proof -
  from chain_child[OF assms(1-3)] have "chain t m = chain t p @ [m]" by simp
  moreover from assms(4) have "prefix (chain t c) (chain t p)" by (simp add: subtree_def)
  ultimately have "prefix (chain t c) (chain t m)" by (simp add: prefix_prefix)
  with assms(2) show ?thesis by (simp add: subtree_def)
qed

lemma parent_not_self:
  assumes "forest t" and "n \<in> set (map fst t)"
  shows "parent_of t n \<noteq> Some n"
proof
  assume "parent_of t n = Some n"
  from chain_child[OF assms this] have "chain t n = chain t n @ [n]" by simp
  then show False by simp
qed

lemma sibling_in_subtree:
  assumes "forest t" and "c \<in> set (map fst t)" and "m \<in> subtree t c"
    and "parent_of t m = parent_of t c"
  shows "m = c"
proof (rule ccontr)
  assume ne: "m \<noteq> c"
  from assms(3) have mk: "m \<in> set (map fst t)" by (simp add: subtree_def)
  from subtree_siblings_disjoint[OF assms(1) mk assms(2,4) ne] subtree_self[OF mk] assms(3)
  show False by blast
qed

lemma room_child:
  assumes "forest t" and "c \<in> set (map fst t)" and "parent_of t c = Some n"
    and "room t (Suc f) n"
  shows "room t f c"
  unfolding room_def
proof
  fix m assume m: "m \<in> subtree t c"
  from chain_child[OF assms(1-3)] have c: "chain t c = chain t n @ [c]" by simp
  from m subtree_child_subset(1)[OF assms(1-3)] have "m \<in> subtree t n" by blast
  with assms(4) have "length (chain t m) + 3 \<le> Suc f + length (chain t n)"
    by (simp add: room_def)
  then show "length (chain t m) + 3 \<le> f + length (chain t c)" by (simp add: c)
qed

lemma dfs_visits:
  assumes f: "forest t" and d: "distinct (map fst t)"
  shows "cm = children_map t \<Longrightarrow> al = t \<Longrightarrow> n \<in> set (map fst t) \<Longrightarrow> sep mp = sp \<Longrightarrow>
       parent_path_ok t sp (parent_of t n) pp \<Longrightarrow>
       subtree t n \<inter> set (map fst (nodes mp)) = {} \<Longrightarrow> room t fr n \<Longrightarrow>
       \<exists>ks. dfs_build fr al cm sp n pp mp =
               Inr (mp\<lparr>nodes := nodes mp @ map (mp_entry t sp) ks\<rparr>)
          \<and> set ks = subtree t n \<and> distinct ks
          \<and> (\<forall>p \<in> subtree t n.
                filter (\<lambda>k. parent_of t k = Some p) ks = sort (child_ids t (Some p)))"
    and "cm = children_map t \<Longrightarrow> al = t \<Longrightarrow> set cs \<subseteq> set (map fst t) \<Longrightarrow> distinct cs \<Longrightarrow>
       \<forall>c \<in> set cs. parent_of t c = q \<Longrightarrow> sep mp = sp \<Longrightarrow>
       parent_path_ok t sp q pp \<Longrightarrow>
       (\<Union>c \<in> set cs. subtree t c) \<inter> set (map fst (nodes mp)) = {} \<Longrightarrow>
       \<forall>c \<in> set cs. room t fr c \<Longrightarrow>
       \<exists>ks. dfs_children fr al cm sp cs pp mp =
               Inr (mp\<lparr>nodes := nodes mp @ map (mp_entry t sp) ks\<rparr>)
          \<and> set ks = (\<Union>c \<in> set cs. subtree t c) \<and> distinct ks
          \<and> filter (\<lambda>k. parent_of t k = q) ks = cs
          \<and> (\<forall>p \<in> (\<Union>c \<in> set cs. subtree t c).
                filter (\<lambda>k. parent_of t k = Some p) ks = sort (child_ids t (Some p)))"
proof (induction fr al cm sp n pp mp and fr al cm sp cs pp mp arbitrary: and q
       rule: dfs_build_dfs_children.induct)
  case (1 al cm sp nid parent_path mp)
  from subtree_self[OF "1.prems"(3)] "1.prems"(7) have False by (auto simp: room_def)
  then show ?case ..
next
  case (2 frames al cm sp nid parent_path mp)
  note al = \<open>al = t\<close> and cm = \<open>cm = children_map t\<close> and nk = \<open>nid \<in> set (map fst t)\<close>
  let ?cur = "cur_path sp parent_path nid"
  let ?cs = "dict_get cm (Some nid)"
  from key_map_of[OF nk] obtain node where m: "map_of t nid = Some node" by blast
  then have nm: "name node = name_of t nid" by (simp add: name_of_def)
  have cur: "?cur = written_path sp (chain t nid)"
    using f nk "2.prems"(5) by (rule cur_path_written)
  have pre: "prefix sp ?cur" unfolding cur by (rule written_path_prefix)
  from subtree_self[OF nk] "2.prems"(6)
  have fresh: "nid \<notin> set (map fst (nodes mp))" by blast
  from subtree_self[OF nk] "2.prems"(7) have fr2: "2 \<le> frames" by (auto simp: room_def)
  let ?mp1 = "mp\<lparr>nodes := nodes mp @ [mp_entry t sp nid]\<rparr>"
  have add: "mp_add_node_framed frames mp nid ?cur (name node) = (None, ?mp1)"
    using mp_add_node_framed_fresh[OF fr2 "2.prems"(4) fresh pre, of "name node"]
    by (simp add: mp_entry_def cur nm)
  have cs_eq: "?cs = sort (child_ids t (Some nid))"
    by (simp add: cm dict_get_children_map)
  have cs_set: "set ?cs = {c \<in> set (map fst t). parent_of t c = Some nid}"
    by (simp add: cm dict_get_children_map child_ids_parent_of[OF d])
  have cs_dist: "distinct ?cs"
    by (simp add: cm dict_get_children_map child_ids_distinct[OF d])
  have sub: "subtree t c \<subseteq> subtree t nid" and notin: "nid \<notin> subtree t c"
    if "c \<in> set ?cs" for c
    using that subtree_child_subset[OF f, of c nid] by (simp_all add: cs_set)
  have "\<exists>ks. dfs_children frames al cm sp ?cs ?cur ?mp1 =
          Inr (?mp1\<lparr>nodes := nodes ?mp1 @ map (mp_entry t sp) ks\<rparr>)
        \<and> set ks = (\<Union>c \<in> set ?cs. subtree t c) \<and> distinct ks
        \<and> filter (\<lambda>k. parent_of t k = Some nid) ks = ?cs
        \<and> (\<forall>p \<in> (\<Union>c \<in> set ?cs. subtree t c).
                filter (\<lambda>k. parent_of t k = Some p) ks = sort (child_ids t (Some p)))"
  proof (rule "2.IH"[where q = "Some nid"])
    show "map_of al nid = Some node" by (simp add: al m)
    show "(None, ?mp1) = mp_add_node_framed frames mp nid ?cur (name node)" by (simp add: add)
    show "None = None" ..
    show "cm = children_map t" by (rule cm)
    show "al = t" by (rule al)
    show "set ?cs \<subseteq> set (map fst t)" by (auto simp: cs_set)
    show "distinct ?cs" by (rule cs_dist)
    show "\<forall>c\<in>set ?cs. parent_of t c = Some nid" by (simp add: cs_set)
    show "sep ?mp1 = sp" by (simp add: "2.prems"(4))
    show "parent_path_ok t sp (Some nid) ?cur"
      unfolding parent_path_ok_def option.case by (rule cur)
    have k1: "set (map fst (nodes ?mp1)) = insert nid (set (map fst (nodes mp)))"
      by (simp add: mp_entry_def)
    show "(\<Union>c \<in> set ?cs. subtree t c) \<inter> set (map fst (nodes ?mp1)) = {}"
    proof (rule ccontr)
      assume "(\<Union>c \<in> set ?cs. subtree t c) \<inter> set (map fst (nodes ?mp1)) \<noteq> {}"
      then obtain x c where c: "c \<in> set ?cs" and x: "x \<in> subtree t c"
        and xk: "x \<in> set (map fst (nodes ?mp1))" by blast
      from xk have "x = nid \<or> x \<in> set (map fst (nodes mp))" unfolding k1 by simp
      then show False
      proof
        assume "x = nid"
        with x notin[OF c] show False by simp
      next
        assume "x \<in> set (map fst (nodes mp))"
        moreover from x sub[OF c] have "x \<in> subtree t nid" by blast
        ultimately show False using "2.prems"(6) by blast
      qed
    qed
    show "\<forall>c \<in> set ?cs. room t frames c"
    proof
      fix c assume "c \<in> set ?cs"
      then have ck: "c \<in> set (map fst t)" and pc: "parent_of t c = Some nid"
        unfolding cs_set by simp_all
      from ck pc "2.prems"(7) show "room t frames c" by (rule room_child[OF f])
    qed
  qed
  then obtain ks where
    r: "dfs_children frames al cm sp ?cs ?cur ?mp1 =
          Inr (?mp1\<lparr>nodes := nodes ?mp1 @ map (mp_entry t sp) ks\<rparr>)" and
    s: "set ks = (\<Union>c \<in> set ?cs. subtree t c)" and dk: "distinct ks" and
    fq: "filter (\<lambda>k. parent_of t k = Some nid) ks = ?cs" and
    fp: "\<forall>p \<in> (\<Union>c \<in> set ?cs. subtree t c).
           filter (\<lambda>k. parent_of t k = Some p) ks = sort (child_ids t (Some p))"
    by blast
  have "dfs_build (Suc frames) al cm sp nid parent_path mp =
      dfs_children frames al cm sp ?cs ?cur ?mp1"
    by (simp add: al m add)
  also have "\<dots> = Inr (mp\<lparr>nodes := nodes mp @ map (mp_entry t sp) (nid # ks)\<rparr>)"
    unfolding r by simp
  finally have res: "dfs_build (Suc frames) al cm sp nid parent_path mp =
      Inr (mp\<lparr>nodes := nodes mp @ map (mp_entry t sp) (nid # ks)\<rparr>)" .
  have un: "subtree t nid = insert nid (\<Union>c \<in> set ?cs. subtree t c)"
    unfolding subtree_unfold[OF f nk] by (simp add: cs_set)
  have set_eq: "set (nid # ks) = subtree t nid"
    unfolding un by (simp add: s)
  have dist: "distinct (nid # ks)"
    using dk notin by (auto simp: s)
  have ord: "filter (\<lambda>k. parent_of t k = Some p) (nid # ks) = sort (child_ids t (Some p))"
    if p: "p \<in> subtree t nid" for p
  proof -
    from p un have "p = nid \<or> (\<exists>c \<in> set ?cs. p \<in> subtree t c)" by blast
    then show ?thesis
    proof
      assume pn: "p = nid"
      with parent_not_self[OF f nk] fq cs_eq show ?thesis by simp
    next
      assume "\<exists>c \<in> set ?cs. p \<in> subtree t c"
      then obtain c where c: "c \<in> set ?cs" and pc: "p \<in> subtree t c" by blast
      have "parent_of t nid \<noteq> Some p"
      proof
        assume "parent_of t nid = Some p"
        from subtree_parent_in[OF f nk this pc] notin[OF c] show False by blast
      qed
      moreover from pc c fp
      have "filter (\<lambda>k. parent_of t k = Some p) ks = sort (child_ids t (Some p))" by blast
      ultimately show ?thesis by simp
    qed
  qed
  from res set_eq dist ord show ?case by blast
next
  case (3 frames al cm sp parent_path mp)
  have "dfs_children frames al cm sp [] parent_path mp =
      Inr (mp\<lparr>nodes := nodes mp @ map (mp_entry t sp) []\<rparr>)" by simp
  then show ?case by (intro exI[of _ "[]"]) simp
next
  case (4 frames al cm sp c cs parent_path mp)
  from "4.prems"(3) have ck: "c \<in> set (map fst t)" and csk: "set cs \<subseteq> set (map fst t)"
    by simp_all
  from "4.prems"(4) have cn: "c \<notin> set cs" and dcs: "distinct cs" by simp_all
  from "4.prems"(5) have pc: "parent_of t c = q" and pcs: "\<forall>c' \<in> set cs. parent_of t c' = q"
    by simp_all
  have "\<exists>ks. dfs_build frames al cm sp c parent_path mp =
          Inr (mp\<lparr>nodes := nodes mp @ map (mp_entry t sp) ks\<rparr>)
        \<and> set ks = subtree t c \<and> distinct ks
        \<and> (\<forall>p \<in> subtree t c.
              filter (\<lambda>k. parent_of t k = Some p) ks = sort (child_ids t (Some p)))"
  proof (rule "4.IH"(1))
    show "cm = children_map t" "al = t" "sep mp = sp" by fact+
    show "c \<in> set (map fst t)" by (rule ck)
    show "parent_path_ok t sp (parent_of t c) parent_path" using "4.prems"(7) by (simp add: pc)
    show "subtree t c \<inter> set (map fst (nodes mp)) = {}" using "4.prems"(8) by auto
    show "room t frames c" using "4.prems"(9) by simp
  qed
  then obtain ks1 where
    r1: "dfs_build frames al cm sp c parent_path mp =
          Inr (mp\<lparr>nodes := nodes mp @ map (mp_entry t sp) ks1\<rparr>)" and
    s1: "set ks1 = subtree t c" and d1: "distinct ks1" and
    o1: "\<forall>p \<in> subtree t c.
           filter (\<lambda>k. parent_of t k = Some p) ks1 = sort (child_ids t (Some p))" by blast
  let ?mp1 = "mp\<lparr>nodes := nodes mp @ map (mp_entry t sp) ks1\<rparr>"
  have dis: "subtree t c' \<inter> subtree t c = {}" if "c' \<in> set cs" for c'
  proof (rule subtree_siblings_disjoint[OF f])
    from that csk show "c' \<in> set (map fst t)" by blast
    show "c \<in> set (map fst t)" by (rule ck)
    from that pcs pc show "parent_of t c' = parent_of t c" by simp
    from that cn show "c' \<noteq> c" by blast
  qed
  have "\<exists>ks. dfs_children frames al cm sp cs parent_path ?mp1 =
          Inr (?mp1\<lparr>nodes := nodes ?mp1 @ map (mp_entry t sp) ks\<rparr>)
        \<and> set ks = (\<Union>c \<in> set cs. subtree t c) \<and> distinct ks
        \<and> filter (\<lambda>k. parent_of t k = q) ks = cs
        \<and> (\<forall>p \<in> (\<Union>c \<in> set cs. subtree t c).
              filter (\<lambda>k. parent_of t k = Some p) ks = sort (child_ids t (Some p)))"
  proof (rule "4.IH"(2)[OF r1, where q = q])
    show "cm = children_map t" "al = t" by fact+
    show "set cs \<subseteq> set (map fst t)" by (rule csk)
    show "distinct cs" by (rule dcs)
    show "\<forall>c\<in>set cs. parent_of t c = q" by (rule pcs)
    show "sep ?mp1 = sp" by (simp add: "4.prems"(6))
    show "parent_path_ok t sp q parent_path" by fact
    show "(\<Union>c \<in> set cs. subtree t c) \<inter> set (map fst (nodes ?mp1)) = {}"
      using "4.prems"(8) dis by (auto simp: fst_mp_entry s1)
    show "\<forall>c \<in> set cs. room t frames c" using "4.prems"(9) by simp
  qed
  then obtain ks2 where
    r2: "dfs_children frames al cm sp cs parent_path ?mp1 =
          Inr (?mp1\<lparr>nodes := nodes ?mp1 @ map (mp_entry t sp) ks2\<rparr>)" and
    s2: "set ks2 = (\<Union>c \<in> set cs. subtree t c)" and d2: "distinct ks2" and
    q2: "filter (\<lambda>k. parent_of t k = q) ks2 = cs" and
    o2: "\<forall>p \<in> (\<Union>c \<in> set cs. subtree t c).
           filter (\<lambda>k. parent_of t k = Some p) ks2 = sort (child_ids t (Some p))" by blast
  have res: "dfs_children frames al cm sp (c # cs) parent_path mp =
      Inr (mp\<lparr>nodes := nodes mp @ map (mp_entry t sp) (ks1 @ ks2)\<rparr>)"
    using r1 r2 by simp
  have set_eq: "set (ks1 @ ks2) = (\<Union>c \<in> set (c # cs). subtree t c)"
    by (simp add: s1 s2)
  have dist: "distinct (ks1 @ ks2)"
    using d1 d2 dis by (auto simp: s1 s2)
  have "filter (\<lambda>k. parent_of t k = q) ks1 = [c]"
  proof (rule filter_single[OF d1])
    show "c \<in> set ks1" unfolding s1 by (rule subtree_self[OF ck])
    show "parent_of t c = q" by (rule pc)
    show "\<forall>k \<in> set ks1. parent_of t k = q \<longrightarrow> k = c"
      unfolding s1
    proof (intro ballI impI)
      fix k assume k: "k \<in> subtree t c" and "parent_of t k = q"
      with pc have "parent_of t k = parent_of t c" by simp
      from sibling_in_subtree[OF f ck k this] show "k = c" .
    qed
  qed
  with q2 have fq: "filter (\<lambda>k. parent_of t k = q) (ks1 @ ks2) = c # cs" by simp
  have none2: "filter (\<lambda>k. parent_of t k = Some p) ks2 = []" if p: "p \<in> subtree t c" for p
    unfolding filter_empty_conv
  proof (intro ballI notI)
    fix k assume k: "k \<in> set ks2" and pk: "parent_of t k = Some p"
    from k s2 obtain c' where c': "c' \<in> set cs" and kc: "k \<in> subtree t c'" by blast
    from kc have "k \<in> set (map fst t)" by (simp add: subtree_def)
    from subtree_parent_in[OF f this pk p] kc dis[OF c'] show False by blast
  qed
  have none1: "filter (\<lambda>k. parent_of t k = Some p) ks1 = []"
    if c': "c' \<in> set cs" and p: "p \<in> subtree t c'" for p c'
    unfolding filter_empty_conv
  proof (intro ballI notI)
    fix k assume k: "k \<in> set ks1" and pk: "parent_of t k = Some p"
    from k s1 have kc: "k \<in> subtree t c" by simp
    then have "k \<in> set (map fst t)" by (simp add: subtree_def)
    from subtree_parent_in[OF f this pk p] kc dis[OF c'] show False by blast
  qed
  have ord: "filter (\<lambda>k. parent_of t k = Some p) (ks1 @ ks2) = sort (child_ids t (Some p))"
    if "p \<in> (\<Union>c \<in> set (c # cs). subtree t c)" for p
  proof -
    from that have "p \<in> subtree t c \<or> (\<exists>c' \<in> set cs. p \<in> subtree t c')" by simp
    then show ?thesis
    proof
      assume p: "p \<in> subtree t c"
      with o1 none2[OF p] show ?thesis by simp
    next
      assume "\<exists>c' \<in> set cs. p \<in> subtree t c'"
      then obtain c' where c': "c' \<in> set cs" and p: "p \<in> subtree t c'" by blast
      from o2 c' p have "filter (\<lambda>k. parent_of t k = Some p) ks2 = sort (child_ids t (Some p))"
        by blast
      with none1[OF c' p] show ?thesis by simp
    qed
  qed
  from res set_eq dist fq ord show ?case by blast
qed

section \<open>What the forward conversion returns\<close>

lemma keyed_add_node:
  assumes "keyed t" and "al_add_node t nid pid nm = (None, t')"
  shows "keyed t'"
  using assms al_add_node_None[OF assms(2)]
  by (auto simp: keyed_def has_key_def)

lemma keyed_Nil: "keyed []"
  by (simp add: keyed_def)

lemma built_keyed:
  assumes "add_nodes [] calls = Inr t"
  shows "keyed t"
  using assms keyed_Nil keyed_add_node by (rule add_nodes_invariant[where P = keyed])

lemma keyed_entries:
  assumes "keyed t"
  shows "set t = al_entry t ` set (map fst t)"
proof (intro equalityI subsetI)
  fix x assume x: "x \<in> set t"
  obtain n node where xn: "x = (n, node)" by (cases x)
  from assms x xn have m: "map_of t n = Some node" and i: "node_id node = n"
    by (auto simp: keyed_def list_all_iff)
  then have "al_entry t n = x"
    by (simp add: al_entry_def parent_of_def name_of_def xn)
  moreover from x xn have "n \<in> set (map fst t)" by force
  ultimately show "x \<in> al_entry t ` set (map fst t)" by blast
next
  fix x assume "x \<in> al_entry t ` set (map fst t)"
  then obtain n where n: "n \<in> set (map fst t)" and x: "x = al_entry t n" by blast
  from key_map_of[OF n] obtain node where m: "map_of t n = Some node" by blast
  then have mem: "(n, node) \<in> set t" by (rule map_of_SomeD)
  with assms have "node_id node = n" by (auto simp: keyed_def list_all_iff)
  with m have "al_entry t n = (n, node)"
    by (simp add: al_entry_def parent_of_def name_of_def)
  with mem x show "x \<in> set t" by simp
qed

lemma foldr_max_ge: "n \<in> set ks \<Longrightarrow> g n \<le> foldr (\<lambda>n d. max (g n) d) ks (0::nat)"
  by (induction ks) auto

lemma al_depth_ge: "n \<in> set (map fst t) \<Longrightarrow> length (chain t n) \<le> al_depth t"
  unfolding al_depth_def by (rule foldr_max_ge)

lemma frames_needed_room:
  assumes "forest t" and "r \<in> set (map fst t)" and "parent_of t r = None"
    and "frames_needed t \<le> frames"
  shows "room t frames r"
  unfolding room_def
proof
  fix m assume "m \<in> subtree t r"
  then have "m \<in> set (map fst t)" by (simp add: subtree_def)
  from al_depth_ge[OF this] have "length (chain t m) \<le> al_depth t" .
  moreover from assms(2) have "t \<noteq> []" by auto
  with assms(4) have "al_depth t + 2 \<le> frames" by (simp add: frames_needed_def)
  moreover from assms(3) have "length (chain t r) = 1" by (simp add: chain_root)
  ultimately show "length (chain t m) + 3 \<le> frames + length (chain t r)" by simp
qed

lemma parent_is_key:
  assumes "forest t" and "k \<in> set (map fst t)" and "parent_of t k = Some p"
  shows "p \<in> set (map fst t)"
  using chain_child[OF assms] by simp

lemma convert_al_to_mp_entries:
  assumes f: "forest t" and d: "distinct (map fst t)" and fr: "frames_needed t \<le> frames"
  shows "\<exists>ks. convert_al_to_mp frames t sp = Inr \<lparr>sep = sp, nodes = map (mp_entry t sp) ks\<rparr>
     \<and> set ks = set (map fst t) \<and> distinct ks
     \<and> (\<forall>q. filter (\<lambda>k. parent_of t k = q) ks = sort (child_ids t q))"
proof -
  let ?cs = "dict_get (children_map t) None"
  have cs_eq: "?cs = sort (child_ids t None)" by (simp add: dict_get_children_map)
  have cs_set: "set ?cs = {c \<in> set (map fst t). parent_of t c = None}"
    by (simp add: dict_get_children_map child_ids_parent_of[OF d])
  from fr have pos: "frames \<noteq> 0" by (auto simp: frames_needed_def split: if_splits)
  have "\<exists>ks. dfs_children frames t (children_map t) sp ?cs sp (mp_init sp) =
          Inr ((mp_init sp)\<lparr>nodes := nodes (mp_init sp) @ map (mp_entry t sp) ks\<rparr>)
        \<and> set ks = (\<Union>c \<in> set ?cs. subtree t c) \<and> distinct ks
        \<and> filter (\<lambda>k. parent_of t k = None) ks = ?cs
        \<and> (\<forall>p \<in> (\<Union>c \<in> set ?cs. subtree t c).
              filter (\<lambda>k. parent_of t k = Some p) ks = sort (child_ids t (Some p)))"
  proof (rule dfs_visits(2)[OF f d, where q = None])
    show "set ?cs \<subseteq> set (map fst t)" unfolding cs_set by blast
    show "distinct ?cs" by (simp add: dict_get_children_map child_ids_distinct[OF d])
    show "\<forall>c\<in>set ?cs. parent_of t c = None" unfolding cs_set by blast
    show "sep (mp_init sp) = sp" by (simp add: mp_init_def)
    show "parent_path_ok t sp None sp" by (simp add: parent_path_ok_def written_path_def)
    show "(\<Union>c \<in> set ?cs. subtree t c) \<inter> set (map fst (nodes (mp_init sp))) = {}"
      by (simp add: mp_init_def)
    show "\<forall>c \<in> set ?cs. room t frames c"
    proof
      fix c assume "c \<in> set ?cs"
      then have "c \<in> set (map fst t)" and "parent_of t c = None" unfolding cs_set by simp_all
      then show "room t frames c" using fr by (rule frames_needed_room[OF f])
    qed
  qed simp_all
  then obtain ks where
    r: "dfs_children frames t (children_map t) sp ?cs sp (mp_init sp) =
          Inr ((mp_init sp)\<lparr>nodes := nodes (mp_init sp) @ map (mp_entry t sp) ks\<rparr>)" and
    s: "set ks = (\<Union>c \<in> set ?cs. subtree t c)" and dk: "distinct ks" and
    fq: "filter (\<lambda>k. parent_of t k = None) ks = ?cs" and
    fp: "\<forall>p \<in> (\<Union>c \<in> set ?cs. subtree t c).
           filter (\<lambda>k. parent_of t k = Some p) ks = sort (child_ids t (Some p))"
    by blast
  have res: "convert_al_to_mp frames t sp = Inr \<lparr>sep = sp, nodes = map (mp_entry t sp) ks\<rparr>"
    unfolding convert_al_to_mp_def r using pos by (simp add: mp_init_def)
  have keys: "set ks = set (map fst t)"
    unfolding s cs_set by (rule roots_cover[OF f])
  have ord: "filter (\<lambda>k. parent_of t k = q) ks = sort (child_ids t q)" for q
  proof (cases q)
    case None
    with fq cs_eq show ?thesis by simp
  next
    case (Some p)
    show ?thesis
    proof (cases "p \<in> set (map fst t)")
      case True
      with keys s have "p \<in> (\<Union>c \<in> set ?cs. subtree t c)" by simp
      from bspec[OF fp this]
      have "filter (\<lambda>k. parent_of t k = Some p) ks = sort (child_ids t (Some p))" .
      with Some show ?thesis by simp
    next
      case False
      have "filter (\<lambda>k. parent_of t k = Some p) ks = []"
        unfolding filter_empty_conv keys using parent_is_key[OF f] False by blast
      moreover have "set (child_ids t (Some p)) = {}"
        unfolding child_ids_parent_of[OF d] using parent_is_key[OF f] False by blast
      ultimately show ?thesis using Some by simp
    qed
  qed
  from res keys dk ord show ?thesis by blast
qed

lemma map_of_entries:
  "n \<in> set ks \<Longrightarrow> map_of (map (mp_entry t sp) ks) n = Some (snd (mp_entry t sp n))"
  by (induction ks) (auto simp: mp_entry_def)

text \<open>
  For a built tree and enough frames the conversion succeeds; it writes one node for every
  node of the tree, each with the path that \<^verbatim>\<open>dfs_build\<close> computes along its chain, and in
  the list of the nodes written the roots, and the children of every node, stand in
  ascending order.
\<close>

lemma built_conversion:
  assumes b: "add_nodes [] calls = Inr t" and fr: "frames_needed t \<le> frames"
  shows "\<exists>mp. convert_al_to_mp frames t sp = Inr mp \<and> sep mp = sp \<and>
     set (map fst (nodes mp)) = set (map fst t) \<and> distinct (map fst (nodes mp)) \<and>
     mp_len mp = al_len t \<and>
     filter (\<lambda>k. parent_of t k = None) (map fst (nodes mp)) = sort (roots t) \<and>
     (\<forall>p. filter (\<lambda>k. parent_of t k = Some p) (map fst (nodes mp)) = sort (children_of t p)) \<and>
     (\<forall>n \<in> set (map fst t). mp_path mp n = Some (written_path sp (chain t n)))"
proof -
  from built_forest[OF b] have f: "forest t" .
  from built_keyed[OF b] have d: "distinct (map fst t)" by (simp add: keyed_def)
  from convert_al_to_mp_entries[OF f d fr, of sp] obtain ks where
    fw: "convert_al_to_mp frames t sp = Inr \<lparr>sep = sp, nodes = map (mp_entry t sp) ks\<rparr>" and
    ks: "set ks = set (map fst t)" and dk: "distinct ks" and
    ord: "\<forall>q. filter (\<lambda>k. parent_of t k = q) ks = sort (child_ids t q)" by blast
  let ?mp = "\<lparr>sep = sp, nodes = map (mp_entry t sp) ks\<rparr>"
  have keys: "map fst (nodes ?mp) = ks" by (simp only: mp_entry_keys select_convs)
  have len: "mp_len ?mp = al_len t"
  proof -
    have "mp_len ?mp = length ks" by (simp add: mp_len_def)
    also from dk have "\<dots> = card (set ks)" by (simp add: distinct_card)
    also from d have "\<dots> = length (map fst t)" unfolding ks by (rule distinct_card)
    finally show ?thesis by (simp add: al_len_def)
  qed
  show ?thesis
  proof (intro exI[of _ ?mp] conjI)
    show "convert_al_to_mp frames t sp = Inr ?mp" by (rule fw)
    show "sep ?mp = sp" by simp
    show "set (map fst (nodes ?mp)) = set (map fst t)" unfolding keys by (rule ks)
    show "distinct (map fst (nodes ?mp))" unfolding keys by (rule dk)
    show "mp_len ?mp = al_len t" by (rule len)
    show "filter (\<lambda>k. parent_of t k = None) (map fst (nodes ?mp)) = sort (roots t)"
      unfolding keys roots_child_ids using ord by blast
    show "\<forall>p. filter (\<lambda>k. parent_of t k = Some p) (map fst (nodes ?mp)) = sort (children_of t p)"
      unfolding keys children_of_child_ids using ord by blast
    show "\<forall>n \<in> set (map fst t). mp_path ?mp n = Some (written_path sp (chain t n))"
      using ks by (simp add: mp_path_def map_of_entries mp_entry_def)
  qed
qed

text \<open>
  C4. The conversion depends on the dictionary of the tree only through the set of its
  entries: two trees with the same entries, yielded in any two orders, convert with the same
  frames to the same result, node for node and path for path. For a built tree and enough
  frames this result is a tree that holds every identifier once with its path, in which the
  roots, and the children of every node, were written in ascending order.
\<close>

theorem convert_al_to_mp_order_independent:
  "(distinct (map fst t1) \<and> distinct (map fst t2) \<and> set t1 = set t2 \<longrightarrow>
      convert_al_to_mp frames t1 sp = convert_al_to_mp frames t2 sp) \<and>
   (add_nodes [] calls = Inr t1 \<and> frames_needed t1 \<le> frames \<longrightarrow>
      (\<exists>mp. convert_al_to_mp frames t1 sp = Inr mp \<and>
         set (map fst (nodes mp)) = set (map fst t1) \<and> distinct (map fst (nodes mp)) \<and>
         filter (\<lambda>k. parent_of t1 k = None) (map fst (nodes mp)) = sort (roots t1) \<and>
         (\<forall>p. filter (\<lambda>k. parent_of t1 k = Some p) (map fst (nodes mp)) =
                sort (children_of t1 p)) \<and>
         (\<forall>n \<in> set (map fst t1). mp_path mp n = Some (written_path sp (chain t1 n)))))"
proof (intro conjI impI)
  assume "distinct (map fst t1) \<and> distinct (map fst t2) \<and> set t1 = set t2"
  then show "convert_al_to_mp frames t1 sp = convert_al_to_mp frames t2 sp"
    using convert_same_entries by blast
next
  assume a: "add_nodes [] calls = Inr t1 \<and> frames_needed t1 \<le> frames"
  then have b: "add_nodes [] calls = Inr t1" and fr: "frames_needed t1 \<le> frames" by simp_all
  from built_conversion[OF b fr, of sp] obtain mp where
    "convert_al_to_mp frames t1 sp = Inr mp"
    "set (map fst (nodes mp)) = set (map fst t1)" "distinct (map fst (nodes mp))"
    "filter (\<lambda>k. parent_of t1 k = None) (map fst (nodes mp)) = sort (roots t1)"
    "\<forall>p. filter (\<lambda>k. parent_of t1 k = Some p) (map fst (nodes mp)) = sort (children_of t1 p)"
    "\<forall>n \<in> set (map fst t1). mp_path mp n = Some (written_path sp (chain t1 n))"
    by blast
  then show "\<exists>mp. convert_al_to_mp frames t1 sp = Inr mp \<and>
         set (map fst (nodes mp)) = set (map fst t1) \<and> distinct (map fst (nodes mp)) \<and>
         filter (\<lambda>k. parent_of t1 k = None) (map fst (nodes mp)) = sort (roots t1) \<and>
         (\<forall>p. filter (\<lambda>k. parent_of t1 k = Some p) (map fst (nodes mp)) =
                sort (children_of t1 p)) \<and>
         (\<forall>n \<in> set (map fst t1). mp_path mp n = Some (written_path sp (chain t1 n)))"
    by blast
qed

theorem convert_al_to_mp_order_independent_witness:
  "distinct (map fst
     [(''A'', \<lparr>node_id = ''A'', parent_id = None, name = ''a''\<rparr>),
      (''B'', \<lparr>node_id = ''B'', parent_id = Some ''A'', name = ''b''\<rparr>),
      (''C'', \<lparr>node_id = ''C'', parent_id = Some ''A'', name = ''c''\<rparr>)]) \<and>
   distinct (map fst
     [(''A'', \<lparr>node_id = ''A'', parent_id = None, name = ''a''\<rparr>),
      (''C'', \<lparr>node_id = ''C'', parent_id = Some ''A'', name = ''c''\<rparr>),
      (''B'', \<lparr>node_id = ''B'', parent_id = Some ''A'', name = ''b''\<rparr>)]) \<and>
   set [(''A'', \<lparr>node_id = ''A'', parent_id = None, name = ''a''\<rparr>),
      (''B'', \<lparr>node_id = ''B'', parent_id = Some ''A'', name = ''b''\<rparr>),
      (''C'', \<lparr>node_id = ''C'', parent_id = Some ''A'', name = ''c''\<rparr>)] =
   set [(''A'', \<lparr>node_id = ''A'', parent_id = None, name = ''a''\<rparr>),
      (''C'', \<lparr>node_id = ''C'', parent_id = Some ''A'', name = ''c''\<rparr>),
      (''B'', \<lparr>node_id = ''B'', parent_id = Some ''A'', name = ''b''\<rparr>)] \<and>
   add_nodes [] [(''A'', None, ''a''), (''B'', Some ''A'', ''b''), (''C'', Some ''A'', ''c'')] =
     Inr [(''A'', \<lparr>node_id = ''A'', parent_id = None, name = ''a''\<rparr>),
      (''B'', \<lparr>node_id = ''B'', parent_id = Some ''A'', name = ''b''\<rparr>),
      (''C'', \<lparr>node_id = ''C'', parent_id = Some ''A'', name = ''c''\<rparr>)] \<and>
   frames_needed
     [(''A'', \<lparr>node_id = ''A'', parent_id = None, name = ''a''\<rparr>),
      (''B'', \<lparr>node_id = ''B'', parent_id = Some ''A'', name = ''b''\<rparr>),
      (''C'', \<lparr>node_id = ''C'', parent_id = Some ''A'', name = ''c''\<rparr>)] \<le> 4 \<and>
   convert_al_to_mp 4
     [(''A'', \<lparr>node_id = ''A'', parent_id = None, name = ''a''\<rparr>),
      (''B'', \<lparr>node_id = ''B'', parent_id = Some ''A'', name = ''b''\<rparr>),
      (''C'', \<lparr>node_id = ''C'', parent_id = Some ''A'', name = ''c''\<rparr>)] ''/'' =
     Inr \<lparr>sep = ''/'', nodes =
       [(''A'', \<lparr>mp_node_id = ''A'', path = ''/A'', mp_name = ''a''\<rparr>),
        (''B'', \<lparr>mp_node_id = ''B'', path = ''/A/B'', mp_name = ''b''\<rparr>),
        (''C'', \<lparr>mp_node_id = ''C'', path = ''/A/C'', mp_name = ''c''\<rparr>)]\<rparr> \<and>
   convert_al_to_mp 4
     [(''A'', \<lparr>node_id = ''A'', parent_id = None, name = ''a''\<rparr>),
      (''C'', \<lparr>node_id = ''C'', parent_id = Some ''A'', name = ''c''\<rparr>),
      (''B'', \<lparr>node_id = ''B'', parent_id = Some ''A'', name = ''b''\<rparr>)] ''/'' =
     Inr \<lparr>sep = ''/'', nodes =
       [(''A'', \<lparr>mp_node_id = ''A'', path = ''/A'', mp_name = ''a''\<rparr>),
        (''B'', \<lparr>mp_node_id = ''B'', path = ''/A/B'', mp_name = ''b''\<rparr>),
        (''C'', \<lparr>mp_node_id = ''C'', path = ''/A/C'', mp_name = ''c''\<rparr>)]\<rparr>"
proof -
  let ?t1 = "[(''A'', \<lparr>node_id = ''A'', parent_id = None, name = ''a''\<rparr>),
      (''B'', \<lparr>node_id = ''B'', parent_id = Some ''A'', name = ''b''\<rparr>),
      (''C'', \<lparr>node_id = ''C'', parent_id = Some ''A'', name = ''c''\<rparr>)]"
  let ?t2 = "[(''A'', \<lparr>node_id = ''A'', parent_id = None, name = ''a''\<rparr>),
      (''C'', \<lparr>node_id = ''C'', parent_id = Some ''A'', name = ''c''\<rparr>),
      (''B'', \<lparr>node_id = ''B'', parent_id = Some ''A'', name = ''b''\<rparr>)]"
  have d1: "distinct (map fst ?t1)" by simp
  have d2: "distinct (map fst ?t2)" by simp
  have e: "set ?t1 = set ?t2" by auto
  have b: "add_nodes [] [(''A'', None, ''a''), (''B'', Some ''A'', ''b''), (''C'', Some ''A'', ''c'')] =
     Inr ?t1" by code_simp
  have fr: "frames_needed ?t1 \<le> 4" by code_simp
  have c1: "convert_al_to_mp 4 ?t1 ''/'' =
     Inr \<lparr>sep = ''/'', nodes =
       [(''A'', \<lparr>mp_node_id = ''A'', path = ''/A'', mp_name = ''a''\<rparr>),
        (''B'', \<lparr>mp_node_id = ''B'', path = ''/A/B'', mp_name = ''b''\<rparr>),
        (''C'', \<lparr>mp_node_id = ''C'', path = ''/A/C'', mp_name = ''c''\<rparr>)]\<rparr>" by code_simp
  from convert_al_to_mp_order_independent [where ?t1.0 = ?t1 and ?t2.0 = ?t2 and frames = 4
      and sp = "''/''"] d1 d2 e
  have "convert_al_to_mp 4 ?t1 ''/'' = convert_al_to_mp 4 ?t2 ''/''" by blast
  with c1 d1 d2 e b fr show ?thesis by simp
qed

section \<open>There and back\<close>

lemma split_from_no_sep:
  "c \<notin> set s \<Longrightarrow> split_from [c] acc (s @ rest) = split_from [c] (acc @ s) rest"
  by (induction s arbitrary: acc) auto

lemma split_from_join:
  "\<forall>s \<in> set ids. c \<notin> set s \<Longrightarrow> split_from [c] acc (join_path [c] ids) = acc # ids"
proof (induction ids arbitrary: acc)
  case Nil
  show ?case by (simp add: join_path_def)
next
  case (Cons a ids)
  then have a: "c \<notin> set a" and r: "\<forall>s \<in> set ids. c \<notin> set s" by simp_all
  have "join_path [c] (a # ids) = c # (a @ join_path [c] ids)" by (simp add: join_path_def)
  then have "split_from [c] acc (join_path [c] (a # ids)) =
      acc # split_from [c] [] (a @ join_path [c] ids)" by simp
  also have "\<dots> = acc # split_from [c] a (join_path [c] ids)"
    using split_from_no_sep[OF a, of "[]"] by simp
  also have "\<dots> = acc # a # ids" using Cons.IH[OF r] by simp
  finally show ?case .
qed

lemma segments_join:
  assumes "\<forall>s \<in> set ids. s \<noteq> [] \<and> c \<notin> set s"
  shows "segments [c] (join_path [c] ids) = ids"
proof -
  from assms have "split_from [c] [] (join_path [c] ids) = [] # ids"
    by (intro split_from_join) simp
  moreover from assms have "filter (\<lambda>s. s \<noteq> []) ids = ids" by (simp add: filter_id_conv)
  ultimately show ?thesis by (simp add: segments_def)
qed

lemma chain_set:
  assumes "forest t" and "n \<in> set (map fst t)"
  shows "set (chain t n) \<subseteq> set (map fst t)"
proof
  fix x assume "x \<in> set (chain t n)"
  then obtain ys zs where "chain t n = ys @ x # zs" by (meson split_list)
  then have "prefix (ys @ [x]) (chain t n)" by simp
  from chain_prefix[OF assms _ this] show "x \<in> set (map fst t)" by simp
qed

lemma entry_segments:
  assumes "forest t" and "n \<in> set (map fst t)"
    and "\<forall>k \<in> set (map fst t). k \<noteq> [] \<and> c \<notin> set k"
  shows "segments [c] (path (snd (mp_entry t [c] n))) = chain t n"
proof -
  from chain_set[OF assms(1,2)] assms(3)
  have "\<forall>s \<in> set (chain t n). s \<noteq> [] \<and> c \<notin> set s" by blast
  then have ne: "\<forall>s \<in> set (chain t n). s \<noteq> [] \<and> c \<notin> set s" .
  then have "[] \<notin> set (chain t n)" by blast
  from written_path_join[OF this] chain_last[OF assms(1,2)]
  have "written_path [c] (chain t n) = join_path [c] (chain t n)" by simp
  with segments_join[OF ne] show ?thesis by (simp add: mp_entry_def)
qed

lemma chain_parent_index:
  assumes "forest t" and "n \<in> set (map fst t)" and "parent_of t n = Some p"
  shows "chain t n ! (length (chain t n) - 2) = p" and "length (chain t p) < length (chain t n)"
proof -
  from chain_child[OF assms] have pk: "p \<in> set (map fst t)"
    and c: "chain t n = chain t p @ [n]" by simp_all
  from chain_last[OF assms(1) pk] have ne: "chain t p \<noteq> []" and l: "last (chain t p) = p"
    by simp_all
  from ne have "chain t n ! (length (chain t n) - 2) = chain t p ! (length (chain t p) - 1)"
    by (simp add: c nth_append)
  also from ne l have "\<dots> = p" by (simp add: last_conv_nth)
  finally show "chain t n ! (length (chain t n) - 2) = p" .
  show "length (chain t p) < length (chain t n)" by (simp add: c)
qed

lemma al_node_of_entry:
  assumes "forest t" and "n \<in> set (map fst t)"
    and "\<forall>k \<in> set (map fst t). k \<noteq> [] \<and> c \<notin> set k"
  shows "al_node_of [c] (mp_entry t [c] n) = al_entry t n"
proof -
  have s: "segments [c] (path (snd (mp_entry t [c] n))) = chain t n"
    using assms by (rule entry_segments)
  have "(if length (chain t n) = 1 then None
         else Some (chain t n ! (length (chain t n) - 2))) = parent_of t n"
  proof (cases "parent_of t n")
    case None
    with chain_length_root[OF assms(1,2)] show ?thesis by simp
  next
    case (Some p)
    with chain_length_root[OF assms(1,2)] chain_parent_index(1)[OF assms(1,2) Some]
    show ?thesis by simp
  qed
  then show ?thesis
    unfolding al_node_of_def s al_entry_def by (simp add: mp_entry_def)
qed

lemma entries_well_formed:
  assumes f: "forest t" and ok: "\<forall>k \<in> set (map fst t). k \<noteq> [] \<and> c \<notin> set k"
    and ks: "set ks = set (map fst t)" and dk: "distinct ks"
  shows "well_formed \<lparr>sep = [c], nodes = map (mp_entry t [c]) ks\<rparr>"
proof -
  let ?items = "map (mp_entry t [c]) ks"
  have "names_itself [c] x \<and> parent_known [c] ?items x" if x: "x \<in> set ?items" for x
  proof -
    from x ks obtain n where n: "n \<in> set (map fst t)" and xn: "x = mp_entry t [c] n" by auto
    have s: "segments [c] (path (snd x)) = chain t n"
      unfolding xn using f n ok by (rule entry_segments)
    have fx: "fst x = n" by (simp add: xn fst_mp_entry)
    from chain_last[OF f n] have ni: "names_itself [c] x"
      by (simp add: names_itself_def s fx)
    have "parent_known [c] ?items x"
    proof (cases "parent_of t n")
      case None
      with chain_length_root[OF f n] show ?thesis
        by (simp add: parent_known_def node_depth_def s)
    next
      case (Some p)
      from chain_child[OF f n Some] have pk: "p \<in> set (map fst t)" by simp
      let ?y = "mp_entry t [c] p"
      have sy: "segments [c] (path (snd ?y)) = chain t p"
        using f pk ok by (rule entry_segments)
      from pk ks have "?y \<in> set ?items" by simp
      moreover have "fst ?y = segments [c] (path (snd x)) ! (node_depth [c] x - 2)"
        using chain_parent_index(1)[OF f n Some] by (simp add: fst_mp_entry node_depth_def s)
      moreover have "node_depth [c] ?y < node_depth [c] x"
        using chain_parent_index(2)[OF f n Some] by (simp add: node_depth_def s sy)
      ultimately show ?thesis
        unfolding parent_known_def list_ex_iff by blast
    qed
    with ni show ?thesis ..
  qed
  moreover have "distinct (map fst ?items)" unfolding mp_entry_keys by (rule dk)
  ultimately show ?thesis by (simp add: well_formed_def list_all_iff)
qed

lemma parent_rel_map_of: "map_of t' = map_of t \<Longrightarrow> parent_rel t' = parent_rel t"
  by (simp add: parent_rel_def)

text \<open>
  C1, as the code has it. Let the tree be built by successful \<^verbatim>\<open>add_node\<close> calls, the
  delimiter be one character, every identifier be non-empty and free of that character, and
  the forward converter have the frames that the depth of the tree needs. Then the forward
  conversion succeeds, the reverse conversion of its result succeeds, and the tree that
  comes back has the same identifiers, the same size, and for every identifier the same
  node: the same parent and the same name.
\<close>

theorem round_trip:
  assumes b: "add_nodes [] calls = Inr t"
    and ok: "list_all (\<lambda>n. n \<noteq> [] \<and> c \<notin> set n) (map fst t)"
    and fr: "frames_needed t \<le> frames"
  shows "\<exists>mp t'. convert_al_to_mp frames t [c] = Inr mp \<and> convert_mp_to_al mp = Inr t' \<and>
           set (map fst t') = set (map fst t) \<and> length t' = length t \<and>
           map_of t' = map_of t \<and> parent_rel t' = parent_rel t \<and>
           (\<forall>n. name_of t' n = name_of t n)"
proof -
  from built_forest[OF b] have f: "forest t" .
  from built_keyed[OF b] have k: "keyed t" .
  then have d: "distinct (map fst t)" by (simp add: keyed_def)
  from ok have ok': "\<forall>k \<in> set (map fst t). k \<noteq> [] \<and> c \<notin> set k"
    by (simp add: list_all_iff)
  then have e: "[] \<notin> set (map fst t)" by blast
  from convert_al_to_mp_entries[OF f d fr, of "[c]"] obtain ks where
    fw: "convert_al_to_mp frames t [c] = Inr \<lparr>sep = [c], nodes = map (mp_entry t [c]) ks\<rparr>" and
    ks: "set ks = set (map fst t)" and dk: "distinct ks" by blast
  let ?mp = "\<lparr>sep = [c], nodes = map (mp_entry t [c]) ks\<rparr>"
  let ?items = "sort_key (node_depth [c]) (map (mp_entry t [c]) ks)"
  let ?t' = "map (al_node_of [c]) ?items"
  from entries_well_formed[OF f ok' ks dk] have wf: "well_formed ?mp" .
  from well_formed_rebuilds[OF wf] have bw: "convert_mp_to_al ?mp = Inr ?t'" by simp
  have items_set: "set ?items = mp_entry t [c] ` set (map fst t)" by (simp add: ks)
  have conv: "al_node_of [c] x = al_entry t (fst x)" if "x \<in> set ?items" for x
  proof -
    from that items_set obtain n where n: "n \<in> set (map fst t)" and x: "x = mp_entry t [c] n"
      by blast
    from al_node_of_entry[OF f n ok'] show ?thesis by (simp add: x fst_mp_entry)
  qed
  have keys': "map fst ?t' = map fst ?items"
    by (simp add: al_node_of_def comp_def)
  have "distinct (map fst (map (mp_entry t [c]) ks))" unfolding mp_entry_keys by (rule dk)
  then have dist: "distinct (map fst ?items)"
    by (metis distinct_map distinct_sort set_sort)
  have "set (map fst ?items) = fst ` mp_entry t [c] ` set ks" by (simp add: image_image)
  then have perm: "set (map fst ?items) = set ks" unfolding mp_entry_key_set .
  have "set ?t' = al_entry t ` set (map fst t)"
  proof (intro equalityI subsetI)
    fix y assume "y \<in> set ?t'"
    then obtain x where x: "x \<in> set ?items" and y: "y = al_node_of [c] x" by auto
    from x items_set obtain n where "n \<in> set (map fst t)" "x = mp_entry t [c] n" by blast
    then have "fst x \<in> set (map fst t)" by (simp only: fst_mp_entry)
    with conv[OF x] y show "y \<in> al_entry t ` set (map fst t)" by blast
  next
    fix y assume "y \<in> al_entry t ` set (map fst t)"
    then obtain n where n: "n \<in> set (map fst t)" and y: "y = al_entry t n" by blast
    from n items_set have x: "mp_entry t [c] n \<in> set ?items" by blast
    from conv[OF x] y have "y = al_node_of [c] (mp_entry t [c] n)" by (simp add: fst_mp_entry)
    with x show "y \<in> set ?t'" by simp
  qed
  with keyed_entries[OF k] have same: "set ?t' = set t" by simp
  have d': "distinct (map fst ?t')" unfolding keys' by (rule dist)
  from d' d same have m: "map_of ?t' = map_of t" by (simp add: map_of_inject_set)
  have len: "length ?t' = length t"
  proof -
    have "length ?t' = length ks" by simp
    also from dk have "\<dots> = card (set ks)" by (simp add: distinct_card)
    also from d have "\<dots> = length (map fst t)" unfolding ks by (rule distinct_card)
    finally show ?thesis by simp
  qed
  have "set (map fst ?t') = set (map fst t)" unfolding keys' perm ks ..
  moreover have "parent_rel ?t' = parent_rel t" using m by (rule parent_rel_map_of)
  moreover have "\<forall>n. name_of ?t' n = name_of t n" by (simp add: name_of_def m)
  ultimately show ?thesis using fw bw m len by blast
qed

theorem round_trip_witness:
  "add_nodes [] [(''A'', None, ''a''), (''B'', Some ''A'', ''b''), (''C'', Some ''A'', ''c''), (''D'', Some ''B'', ''d'')] =
     Inr [(''A'', \<lparr>node_id = ''A'', parent_id = None, name = ''a''\<rparr>),
      (''B'', \<lparr>node_id = ''B'', parent_id = Some ''A'', name = ''b''\<rparr>),
      (''C'', \<lparr>node_id = ''C'', parent_id = Some ''A'', name = ''c''\<rparr>),
      (''D'', \<lparr>node_id = ''D'', parent_id = Some ''B'', name = ''d''\<rparr>)] \<and>
   list_all (\<lambda>n. n \<noteq> [] \<and> CHR ''/'' \<notin> set n) (map fst
     [(''A'', \<lparr>node_id = ''A'', parent_id = None, name = ''a''\<rparr>),
      (''B'', \<lparr>node_id = ''B'', parent_id = Some ''A'', name = ''b''\<rparr>),
      (''C'', \<lparr>node_id = ''C'', parent_id = Some ''A'', name = ''c''\<rparr>),
      (''D'', \<lparr>node_id = ''D'', parent_id = Some ''B'', name = ''d''\<rparr>)]) \<and>
   frames_needed
     [(''A'', \<lparr>node_id = ''A'', parent_id = None, name = ''a''\<rparr>),
      (''B'', \<lparr>node_id = ''B'', parent_id = Some ''A'', name = ''b''\<rparr>),
      (''C'', \<lparr>node_id = ''C'', parent_id = Some ''A'', name = ''c''\<rparr>),
      (''D'', \<lparr>node_id = ''D'', parent_id = Some ''B'', name = ''d''\<rparr>)] \<le> 6 \<and>
   (\<exists>mp t'. convert_al_to_mp 6
       [(''A'', \<lparr>node_id = ''A'', parent_id = None, name = ''a''\<rparr>),
      (''B'', \<lparr>node_id = ''B'', parent_id = Some ''A'', name = ''b''\<rparr>),
      (''C'', \<lparr>node_id = ''C'', parent_id = Some ''A'', name = ''c''\<rparr>),
      (''D'', \<lparr>node_id = ''D'', parent_id = Some ''B'', name = ''d''\<rparr>)] ''/'' = Inr mp \<and>
     convert_mp_to_al mp = Inr t' \<and>
     map_of t' = map_of
       [(''A'', \<lparr>node_id = ''A'', parent_id = None, name = ''a''\<rparr>),
      (''B'', \<lparr>node_id = ''B'', parent_id = Some ''A'', name = ''b''\<rparr>),
      (''C'', \<lparr>node_id = ''C'', parent_id = Some ''A'', name = ''c''\<rparr>),
      (''D'', \<lparr>node_id = ''D'', parent_id = Some ''B'', name = ''d''\<rparr>)])"
proof -
  have b: "add_nodes [] [(''A'', None, ''a''), (''B'', Some ''A'', ''b''), (''C'', Some ''A'', ''c''), (''D'', Some ''B'', ''d'')] =
     Inr [(''A'', \<lparr>node_id = ''A'', parent_id = None, name = ''a''\<rparr>),
      (''B'', \<lparr>node_id = ''B'', parent_id = Some ''A'', name = ''b''\<rparr>),
      (''C'', \<lparr>node_id = ''C'', parent_id = Some ''A'', name = ''c''\<rparr>),
      (''D'', \<lparr>node_id = ''D'', parent_id = Some ''B'', name = ''d''\<rparr>)]"
    by code_simp
  have ok: "list_all (\<lambda>n. n \<noteq> [] \<and> CHR ''/'' \<notin> set n) (map fst
     [(''A'', \<lparr>node_id = ''A'', parent_id = None, name = ''a''\<rparr>),
      (''B'', \<lparr>node_id = ''B'', parent_id = Some ''A'', name = ''b''\<rparr>),
      (''C'', \<lparr>node_id = ''C'', parent_id = Some ''A'', name = ''c''\<rparr>),
      (''D'', \<lparr>node_id = ''D'', parent_id = Some ''B'', name = ''d''\<rparr>)])"
    by simp
  have fr: "frames_needed
     [(''A'', \<lparr>node_id = ''A'', parent_id = None, name = ''a''\<rparr>),
      (''B'', \<lparr>node_id = ''B'', parent_id = Some ''A'', name = ''b''\<rparr>),
      (''C'', \<lparr>node_id = ''C'', parent_id = Some ''A'', name = ''c''\<rparr>),
      (''D'', \<lparr>node_id = ''D'', parent_id = Some ''B'', name = ''d''\<rparr>)] \<le> 6"
    by code_simp
  from round_trip [OF b ok fr] b ok fr show ?thesis by blast
qed

text \<open>
  C1 as it is stated does not hold: the tree of the root \<open>A\<close> and its child \<open>B/C\<close>, built by
  two successful \<^verbatim>\<open>add_node\<close> calls, converts, with the four frames it needs, to the
  paths \<open>/A\<close> and \<open>/A/B/C\<close>, and the reverse conversion of these fails with
  PathIdentityMismatch.
\<close>

theorem round_trip_counterexample:
  "add_nodes [] [(''A'', None, ''a''), (''B/C'', Some ''A'', ''b'')] =
     Inr [(''A'', \<lparr>node_id = ''A'', parent_id = None, name = ''a''\<rparr>), (''B/C'', \<lparr>node_id = ''B/C'', parent_id = Some ''A'', name = ''b''\<rparr>)] \<and>
   frames_needed
     [(''A'', \<lparr>node_id = ''A'', parent_id = None, name = ''a''\<rparr>), (''B/C'', \<lparr>node_id = ''B/C'', parent_id = Some ''A'', name = ''b''\<rparr>)] = 4 \<and>
   convert_al_to_mp 4
     [(''A'', \<lparr>node_id = ''A'', parent_id = None, name = ''a''\<rparr>), (''B/C'', \<lparr>node_id = ''B/C'', parent_id = Some ''A'', name = ''b''\<rparr>)] ''/'' =
     Inr \<lparr>sep = ''/'', nodes = [(''A'', \<lparr>mp_node_id = ''A'', path = ''/A'', mp_name = ''a''\<rparr>), (''B/C'', \<lparr>mp_node_id = ''B/C'', path = ''/A/B/C'', mp_name = ''b''\<rparr>)]\<rparr> \<and>
   convert_mp_to_al
     \<lparr>sep = ''/'', nodes = [(''A'', \<lparr>mp_node_id = ''A'', path = ''/A'', mp_name = ''a''\<rparr>), (''B/C'', \<lparr>mp_node_id = ''B/C'', path = ''/A/B/C'', mp_name = ''b''\<rparr>)]\<rparr> =
     Inl PathIdentityMismatch"
  by code_simp

text \<open>
  A delimiter of several characters can be cut where an identifier ends: with the
  delimiter \<open>aba\<close> the root \<open>ab\<close> and its child \<open>x\<close>, neither of which contains the
  delimiter, do not come back. A delimiter of one character cannot be cut so.
\<close>

lemma long_delimiter_example:
  "convert_al_to_mp 4
     [(''ab'', \<lparr>node_id = ''ab'', parent_id = None, name = ''r''\<rparr>),
      (''x'', \<lparr>node_id = ''x'', parent_id = Some ''ab'', name = ''c''\<rparr>)] ''aba'' =
     Inr \<lparr>sep = ''aba'', nodes =
       [(''ab'', \<lparr>mp_node_id = ''ab'', path = ''abaab'', mp_name = ''r''\<rparr>),
        (''x'', \<lparr>mp_node_id = ''x'', path = ''abaababax'', mp_name = ''c''\<rparr>)]\<rparr> \<and>
   segments ''aba'' ''abaababax'' = [''bax''] \<and>
   convert_mp_to_al
     \<lparr>sep = ''aba'', nodes =
       [(''ab'', \<lparr>mp_node_id = ''ab'', path = ''abaab'', mp_name = ''r''\<rparr>),
        (''x'', \<lparr>mp_node_id = ''x'', path = ''abaababax'', mp_name = ''c''\<rparr>)]\<rparr> =
     Inl PathIdentityMismatch"
  by code_simp

text \<open>
  The frames decide: the chain \<open>A\<close>, \<open>B\<close>, \<open>C\<close> has depth three and needs five frames. With
  four the call of the node constructor for \<open>C\<close> raises \<^verbatim>\<open>RecursionError\<close>.
\<close>

lemma short_of_frames_example:
  "add_nodes [] [(''A'', None, ''a''), (''B'', Some ''A'', ''b''), (''C'', Some ''B'', ''c'')] =
     Inr [(''A'', \<lparr>node_id = ''A'', parent_id = None, name = ''a''\<rparr>),
          (''B'', \<lparr>node_id = ''B'', parent_id = Some ''A'', name = ''b''\<rparr>),
          (''C'', \<lparr>node_id = ''C'', parent_id = Some ''B'', name = ''c''\<rparr>)] \<and>
   frames_needed
     [(''A'', \<lparr>node_id = ''A'', parent_id = None, name = ''a''\<rparr>),
      (''B'', \<lparr>node_id = ''B'', parent_id = Some ''A'', name = ''b''\<rparr>),
      (''C'', \<lparr>node_id = ''C'', parent_id = Some ''B'', name = ''c''\<rparr>)] = 5 \<and>
   convert_al_to_mp 4
     [(''A'', \<lparr>node_id = ''A'', parent_id = None, name = ''a''\<rparr>),
      (''B'', \<lparr>node_id = ''B'', parent_id = Some ''A'', name = ''b''\<rparr>),
      (''C'', \<lparr>node_id = ''C'', parent_id = Some ''B'', name = ''c''\<rparr>)] ''/'' =
     Inl RecursionError \<and>
   convert_al_to_mp 5
     [(''A'', \<lparr>node_id = ''A'', parent_id = None, name = ''a''\<rparr>),
      (''B'', \<lparr>node_id = ''B'', parent_id = Some ''A'', name = ''b''\<rparr>),
      (''C'', \<lparr>node_id = ''C'', parent_id = Some ''B'', name = ''c''\<rparr>)] ''/'' =
     Inr \<lparr>sep = ''/'', nodes =
       [(''A'', \<lparr>mp_node_id = ''A'', path = ''/A'', mp_name = ''a''\<rparr>),
        (''B'', \<lparr>mp_node_id = ''B'', path = ''/A/B'', mp_name = ''b''\<rparr>),
        (''C'', \<lparr>mp_node_id = ''C'', path = ''/A/B/C'', mp_name = ''c''\<rparr>)]\<rparr>"
  by code_simp

section \<open>The paths the traversal writes\<close>

text \<open>
  For a built tree without the empty identifier the forward conversion, given the frames
  that the depth of the tree needs, succeeds for every delimiter, writes one node for every
  node of the tree, each with the joined chain of its ancestors as path, and the path of a
  child is the path of its parent, the delimiter and the identifier of the child.
\<close>

lemma forward_paths:
  assumes b: "add_nodes [] calls = Inr t" and e: "[] \<notin> set (map fst t)"
    and fr: "frames_needed t \<le> frames"
  shows "\<exists>mp. convert_al_to_mp frames t sp = Inr mp \<and> sep mp = sp \<and>
     distinct (map fst (nodes mp)) \<and> set (map fst (nodes mp)) = set (map fst t) \<and>
     mp_len mp = al_len t \<and>
     (\<forall>n \<in> set (map fst t). mp_path mp n = Some (join_path sp (chain t n))) \<and>
     (\<forall>n \<in> set (map fst t). \<forall>p. parent_of t n = Some p \<longrightarrow>
        mp_path mp n = Some (the (mp_path mp p) @ sp @ n))"
proof -
  from built_forest[OF b] have f: "forest t" .
  from built_conversion[OF b fr, of sp] obtain mp where
    fw: "convert_al_to_mp frames t sp = Inr mp" and s: "sep mp = sp" and
    ks: "set (map fst (nodes mp)) = set (map fst t)" and dk: "distinct (map fst (nodes mp))" and
    len: "mp_len mp = al_len t" and
    w: "\<forall>n \<in> set (map fst t). mp_path mp n = Some (written_path sp (chain t n))" by blast
  have p: "mp_path mp n = Some (join_path sp (chain t n))" if n: "n \<in> set (map fst t)" for n
  proof -
    from chain_set[OF f n] e have "[] \<notin> set (chain t n)" by blast
    from written_path_join[OF this] chain_last[OF f n]
    have "written_path sp (chain t n) = join_path sp (chain t n)" by simp
    with bspec[OF w n] show ?thesis by simp
  qed
  have x: "mp_path mp n = Some (the (mp_path mp q) @ sp @ n)"
    if n: "n \<in> set (map fst t)" and q: "parent_of t n = Some q" for n q
  proof -
    from chain_child[OF f n q] have qk: "q \<in> set (map fst t)"
      and c: "chain t n = chain t q @ [n]" by simp_all
    show ?thesis unfolding p[OF n] p[OF qk] c join_path_snoc by simp
  qed
  show ?thesis
  proof (intro exI[of _ mp] conjI)
    show "convert_al_to_mp frames t sp = Inr mp" by (rule fw)
    show "sep mp = sp" by (rule s)
    show "distinct (map fst (nodes mp))" by (rule dk)
    show "set (map fst (nodes mp)) = set (map fst t)" by (rule ks)
    show "mp_len mp = al_len t" by (rule len)
    show "\<forall>n \<in> set (map fst t). mp_path mp n = Some (join_path sp (chain t n))"
      using p by blast
    show "\<forall>n \<in> set (map fst t). \<forall>q. parent_of t n = Some q \<longrightarrow>
        mp_path mp n = Some (the (mp_path mp q) @ sp @ n)"
      using x by blast
  qed
qed

text \<open>
  C2, at the tree of the root with the empty identifier and its child \<open>B\<close>, both accepted
  by \<^verbatim>\<open>add_node\<close>. With four frames or more the conversion writes one node for each, but
  the path written for \<open>B\<close> is \<open>/B\<close>, while the chain from the root down to \<open>B\<close> is the empty
  identifier and \<open>B\<close>, which joined by the delimiter after a leading delimiter is \<open>//B\<close>.
\<close>

theorem empty_root_child_chain:
  "add_nodes [] [('''', None, ''r''), (''B'', Some '''', ''b'')] =
     Inr [('''', \<lparr>node_id = '''', parent_id = None, name = ''r''\<rparr>),
          (''B'', \<lparr>node_id = ''B'', parent_id = Some '''', name = ''b''\<rparr>)] \<and>
   convert_al_to_mp (4 + k)
     [('''', \<lparr>node_id = '''', parent_id = None, name = ''r''\<rparr>),
      (''B'', \<lparr>node_id = ''B'', parent_id = Some '''', name = ''b''\<rparr>)] ''/'' =
     Inr \<lparr>sep = ''/'', nodes =
       [('''', \<lparr>mp_node_id = '''', path = ''/'', mp_name = ''r''\<rparr>),
        (''B'', \<lparr>mp_node_id = ''B'', path = ''/B'', mp_name = ''b''\<rparr>)]\<rparr> \<and>
   chain [('''', \<lparr>node_id = '''', parent_id = None, name = ''r''\<rparr>),
          (''B'', \<lparr>node_id = ''B'', parent_id = Some '''', name = ''b''\<rparr>)] ''B'' = ['''', ''B''] \<and>
   join_path ''/'' ['''', ''B''] = ''//B''"
proof -
  have 1: "add_nodes [] [('''', None, ''r''), (''B'', Some '''', ''b'')] =
     Inr [('''', \<lparr>node_id = '''', parent_id = None, name = ''r''\<rparr>),
          (''B'', \<lparr>node_id = ''B'', parent_id = Some '''', name = ''b''\<rparr>)]"
    by code_simp
  have "convert_al_to_mp 4
     [('''', \<lparr>node_id = '''', parent_id = None, name = ''r''\<rparr>),
      (''B'', \<lparr>node_id = ''B'', parent_id = Some '''', name = ''b''\<rparr>)] ''/'' =
     Inr \<lparr>sep = ''/'', nodes =
       [('''', \<lparr>mp_node_id = '''', path = ''/'', mp_name = ''r''\<rparr>),
        (''B'', \<lparr>mp_node_id = ''B'', path = ''/B'', mp_name = ''b''\<rparr>)]\<rparr>"
    by code_simp
  then have 2: "convert_al_to_mp (4 + k)
     [('''', \<lparr>node_id = '''', parent_id = None, name = ''r''\<rparr>),
      (''B'', \<lparr>node_id = ''B'', parent_id = Some '''', name = ''b''\<rparr>)] ''/'' =
     Inr \<lparr>sep = ''/'', nodes =
       [('''', \<lparr>mp_node_id = '''', path = ''/'', mp_name = ''r''\<rparr>),
        (''B'', \<lparr>mp_node_id = ''B'', path = ''/B'', mp_name = ''b''\<rparr>)]\<rparr>"
    by (rule convert_more_frames)
  have 3: "chain [('''', \<lparr>node_id = '''', parent_id = None, name = ''r''\<rparr>),
          (''B'', \<lparr>node_id = ''B'', parent_id = Some '''', name = ''b''\<rparr>)] ''B'' = ['''', ''B'']"
    by code_simp
  have 4: "join_path ''/'' ['''', ''B''] = ''//B''"
    by code_simp
  from 1 2 3 4 show ?thesis by blast
qed

text \<open>
  C3, at the same tree. The path written for the root is \<open>/\<close>, which is the delimiter:
  \<^verbatim>\<open>dfs_build\<close> takes the parent path of the child \<open>B\<close> for the mark of a root and
  writes \<open>/B\<close>, not the path of the parent followed by the delimiter and \<open>B\<close>.
\<close>

theorem empty_root_child_path:
  "convert_al_to_mp (4 + k)
     [('''', \<lparr>node_id = '''', parent_id = None, name = ''r''\<rparr>),
      (''B'', \<lparr>node_id = ''B'', parent_id = Some '''', name = ''b''\<rparr>)] ''/'' =
     Inr \<lparr>sep = ''/'', nodes =
       [('''', \<lparr>mp_node_id = '''', path = ''/'', mp_name = ''r''\<rparr>),
        (''B'', \<lparr>mp_node_id = ''B'', path = ''/B'', mp_name = ''b''\<rparr>)]\<rparr> \<and>
   parent_of
     [('''', \<lparr>node_id = '''', parent_id = None, name = ''r''\<rparr>),
      (''B'', \<lparr>node_id = ''B'', parent_id = Some '''', name = ''b''\<rparr>)] ''B'' = Some '''' \<and>
   mp_path \<lparr>sep = ''/'', nodes =
       [('''', \<lparr>mp_node_id = '''', path = ''/'', mp_name = ''r''\<rparr>),
        (''B'', \<lparr>mp_node_id = ''B'', path = ''/B'', mp_name = ''b''\<rparr>)]\<rparr> '''' = Some ''/'' \<and>
   mp_path \<lparr>sep = ''/'', nodes =
       [('''', \<lparr>mp_node_id = '''', path = ''/'', mp_name = ''r''\<rparr>),
        (''B'', \<lparr>mp_node_id = ''B'', path = ''/B'', mp_name = ''b''\<rparr>)]\<rparr> ''B'' = Some ''/B'' \<and>
   cur_path ''/'' ''/'' ''B'' = ''/B'' \<and>
   ''/B'' \<noteq> ''/'' @ ''/'' @ ''B''"
proof -
  have "convert_al_to_mp 4
     [('''', \<lparr>node_id = '''', parent_id = None, name = ''r''\<rparr>),
      (''B'', \<lparr>node_id = ''B'', parent_id = Some '''', name = ''b''\<rparr>)] ''/'' =
     Inr \<lparr>sep = ''/'', nodes =
       [('''', \<lparr>mp_node_id = '''', path = ''/'', mp_name = ''r''\<rparr>),
        (''B'', \<lparr>mp_node_id = ''B'', path = ''/B'', mp_name = ''b''\<rparr>)]\<rparr>"
    by code_simp
  then have 1: "convert_al_to_mp (4 + k)
     [('''', \<lparr>node_id = '''', parent_id = None, name = ''r''\<rparr>),
      (''B'', \<lparr>node_id = ''B'', parent_id = Some '''', name = ''b''\<rparr>)] ''/'' =
     Inr \<lparr>sep = ''/'', nodes =
       [('''', \<lparr>mp_node_id = '''', path = ''/'', mp_name = ''r''\<rparr>),
        (''B'', \<lparr>mp_node_id = ''B'', path = ''/B'', mp_name = ''b''\<rparr>)]\<rparr>"
    by (rule convert_more_frames)
  have 2: "parent_of
     [('''', \<lparr>node_id = '''', parent_id = None, name = ''r''\<rparr>),
      (''B'', \<lparr>node_id = ''B'', parent_id = Some '''', name = ''b''\<rparr>)] ''B'' = Some ''''"
    by code_simp
  have 3: "mp_path \<lparr>sep = ''/'', nodes =
       [('''', \<lparr>mp_node_id = '''', path = ''/'', mp_name = ''r''\<rparr>),
        (''B'', \<lparr>mp_node_id = ''B'', path = ''/B'', mp_name = ''b''\<rparr>)]\<rparr> '''' = Some ''/''"
    by code_simp
  have 4: "mp_path \<lparr>sep = ''/'', nodes =
       [('''', \<lparr>mp_node_id = '''', path = ''/'', mp_name = ''r''\<rparr>),
        (''B'', \<lparr>mp_node_id = ''B'', path = ''/B'', mp_name = ''b''\<rparr>)]\<rparr> ''B'' = Some ''/B''"
    by code_simp
  have 5: "cur_path ''/'' ''/'' ''B'' = ''/B''"
    by code_simp
  have 6: "''/B'' \<noteq> ''/'' @ ''/'' @ ''B''"
    by simp
  from 1 2 3 4 5 6 show ?thesis by blast
qed

end
